theory Spec2Isabelle
  imports Main "HOL-Library.AList" "HOL-Library.Char_ord" "HOL-Library.List_Lexorder"
begin

section \<open>Python values shared by both graph classes\<close>

text \<open>
  The exceptions the two classes can raise. Every function that indexes a list, looks
  a key up or tests membership in the result of \<^verbatim>\<open>dict.get\<close> returns a sum whose
  left injection is the exception.
\<close>

datatype py_error = IndexError | KeyError | TypeError | ValueError

text \<open>
  \<^verbatim>\<open>xs[i]\<close> for a Python list: an index in \<open>-len(xs) .. -1\<close> counts from the
  end, anything outside \<open>-len(xs) .. len(xs)-1\<close> raises IndexError.
\<close>

definition py_norm :: "'a list \<Rightarrow> int \<Rightarrow> int" where
  "py_norm xs i = (if i < 0 then int (length xs) + i else i)"

definition py_valid :: "'a list \<Rightarrow> int \<Rightarrow> bool" where
  "py_valid xs i = (0 \<le> py_norm xs i \<and> py_norm xs i < int (length xs))"

definition py_get :: "'a list \<Rightarrow> int \<Rightarrow> py_error + 'a" where
  "py_get xs i = (if py_valid xs i then Inr (xs ! nat (py_norm xs i)) else Inl IndexError)"

definition py_set :: "'a list \<Rightarrow> int \<Rightarrow> 'a \<Rightarrow> py_error + 'a list" where
  "py_set xs i x = (if py_valid xs i then Inr (xs[nat (py_norm xs i) := x]) else Inl IndexError)"

section \<open>DirectedGraph (d\_graph.py)\<close>

text \<open>
  The object state: \<^verbatim>\<open>self.v_count\<close> and \<^verbatim>\<open>self.adj_matrix\<close>, a list of rows.
  Each row is a list object of its own (\<^verbatim>\<open>add_vertex\<close> creates it), so rows do not alias.
\<close>

record DirectedGraph =
  v_count :: nat
  adj_matrix :: "int list list"

definition d_init :: DirectedGraph where
  "d_init = \<lparr>v_count = 0, adj_matrix = []\<rparr>"

text \<open>\<^verbatim>\<open>add_vertex\<close>: returns the new state and the returned count.\<close>

definition d_add_vertex :: "DirectedGraph \<Rightarrow> DirectedGraph \<times> nat" where
  "d_add_vertex g =
     (let n = v_count g + 1;
          v = replicate n (0::int);
          rows = map (\<lambda>vertex. vertex @ [0]) (adj_matrix g)
      in (\<lparr>v_count = n, adj_matrix = rows @ [v]\<rparr>, n))"

text \<open>
  \<^verbatim>\<open>self.adj_matrix[src][dst] = weight\<close>: reads row \<open>src\<close>, then stores into it;
  either index can raise.
\<close>

definition d_store :: "DirectedGraph \<Rightarrow> int \<Rightarrow> int \<Rightarrow> int \<Rightarrow> py_error + DirectedGraph" where
  "d_store g src dst weight =
     (case py_get (adj_matrix g) src of
        Inl e \<Rightarrow> Inl e
      | Inr row \<Rightarrow>
          (case py_set row dst weight of
             Inl e \<Rightarrow> Inl e
           | Inr row' \<Rightarrow>
               Inr (g\<lparr>adj_matrix := (adj_matrix g)[nat (py_norm (adj_matrix g) src) := row']\<rparr>)))"

definition d_add_edge :: "DirectedGraph \<Rightarrow> int \<Rightarrow> int \<Rightarrow> int \<Rightarrow> py_error + DirectedGraph" where
  "d_add_edge g src dst weight =
     (if src \<noteq> dst \<and> weight \<ge> 0 \<and> int (length (adj_matrix g)) > src
         \<and> int (length (adj_matrix g)) > dst
      then d_store g src dst weight
      else Inr g)"

definition d_remove_edge :: "DirectedGraph \<Rightarrow> int \<Rightarrow> int \<Rightarrow> py_error + DirectedGraph" where
  "d_remove_edge g src dst =
     (if int (length (adj_matrix g)) > src \<and> int (length (adj_matrix g)) > dst
         \<and> src \<ge> 0 \<and> dst \<ge> 0
      then d_store g src dst 0
      else Inr g)"

text \<open>
  Sequences of the mutating calls; an exception ends the sequence, as it would end the
  caller.
\<close>

datatype d_op = AddVertex | AddEdge int int int | RemoveEdge int int

fun d_apply :: "DirectedGraph \<Rightarrow> d_op \<Rightarrow> py_error + DirectedGraph" where
  "d_apply g AddVertex = Inr (fst (d_add_vertex g))"
| "d_apply g (AddEdge src dst weight) = d_add_edge g src dst weight"
| "d_apply g (RemoveEdge src dst) = d_remove_edge g src dst"

fun d_run :: "DirectedGraph \<Rightarrow> d_op list \<Rightarrow> py_error + DirectedGraph" where
  "d_run g [] = Inr g"
| "d_run g (c # cs) = (case d_apply g c of Inl e \<Rightarrow> Inl e | Inr g' \<Rightarrow> d_run g' cs)"

text \<open>The shape every state built by the class has: a square matrix of side \<open>v_count\<close>.\<close>

definition d_square :: "DirectedGraph \<Rightarrow> bool" where
  "d_square g =
     (length (adj_matrix g) = v_count g \<and> list_all (\<lambda>row. length row = v_count g) (adj_matrix g))"

text \<open>The inner \<^verbatim>\<open>for u in self.adj_matrix[v]\<close> loop of dfs and bfs, with its counter.\<close>

fun d_adjacent :: "int list \<Rightarrow> int \<Rightarrow> int list \<Rightarrow> int list" where
  "d_adjacent [] count temp_list = temp_list"
| "d_adjacent (u # row) count temp_list =
     d_adjacent row (count + 1) (if u \<noteq> 0 then temp_list @ [count] else temp_list)"

text \<open>
  The \<^verbatim>\<open>while len(stack) != 0\<close> loop of dfs. \<open>v_end\<close> is \<open>None\<close> when the
  argument is omitted.
\<close>

function d_dfs_loop ::
  "int list list \<Rightarrow> int option \<Rightarrow> int list \<Rightarrow> int list \<Rightarrow> py_error + int list" where
  "d_dfs_loop M v_end visited stack =
     (if stack = [] then Inr visited
      else
        let v = last stack; stack1 = butlast stack in
        if v \<notin> set visited then
          (case py_get M v of
             Inl e \<Rightarrow> Inl e
           | Inr row \<Rightarrow>
               let visited1 = visited @ [v];
                   temp_list = rev (sort (d_adjacent row 0 []));
                   stack2 = stack1 @ temp_list
               in if Some v = v_end then Inr visited1
                  else d_dfs_loop M v_end visited1 stack2)
        else if Some v = v_end then Inr visited
        else d_dfs_loop M v_end visited stack1)"
  by pat_completeness auto

definition d_unvisited :: "int list list \<Rightarrow> int list \<Rightarrow> nat" where
  "d_unvisited M visited = card ({- int (length M) ..< int (length M)} - set visited)"

lemma py_get_range:
  assumes "py_get M v = Inr row"
  shows "- int (length M) \<le> v \<and> v < int (length M)"
proof -
  from assms have "py_valid M v" by (simp add: py_get_def split: if_splits)
  then show ?thesis unfolding py_valid_def py_norm_def by (cases "v < 0") simp_all
qed

lemma d_unvisited_less:
  assumes "v \<notin> set visited" and "py_get M v = Inr row"
  shows "d_unvisited M (visited @ [v]) < d_unvisited M visited"
proof -
  define A where "A = {- int (length M) ..< int (length M)}"
  from py_get_range[OF assms(2)] have "v \<in> A" by (simp add: A_def)
  with assms(1) have "A - insert v (set visited) \<subset> A - set visited" by blast
  moreover have "finite (A - set visited)" by (simp add: A_def)
  ultimately have "card (A - insert v (set visited)) < card (A - set visited)"
    by (rule psubset_card_mono[rotated])
  then show ?thesis by (simp add: d_unvisited_def A_def)
qed

termination d_dfs_loop
proof (relation "measures [\<lambda>(M, v_end, visited, stack). d_unvisited M visited,
                          \<lambda>(M, v_end, visited, stack). length stack]", goal_cases)
  case 1
  show ?case by simp
next
  case (2 M v_end visited stack v stack1 row)
  then show ?case by (simp add: d_unvisited_less)
next
  case (3 M v_end visited stack v stack1)
  then show ?case by (cases stack rule: rev_cases) auto
qed

declare d_dfs_loop.simps [simp del]

definition d_dfs :: "DirectedGraph \<Rightarrow> int \<Rightarrow> int option \<Rightarrow> py_error + int list" where
  "d_dfs g v_start v_end =
     (if v_start > int (length (adj_matrix g)) then Inr []
      else d_dfs_loop (adj_matrix g) v_end [] [v_start])"

text \<open>The \<^verbatim>\<open>while len(queue) != 0\<close> loop of bfs.\<close>

function d_bfs_loop ::
  "int list list \<Rightarrow> int option \<Rightarrow> int list \<Rightarrow> int list \<Rightarrow> py_error + int list" where
  "d_bfs_loop M v_end visited queue =
     (if queue = [] then Inr visited
      else
        let v = hd queue; queue1 = tl queue in
        if v \<notin> set visited then
          (case py_get M v of
             Inl e \<Rightarrow> Inl e
           | Inr row \<Rightarrow>
               let visited1 = visited @ [v];
                   temp_list = sort (d_adjacent row 0 []);
                   queue2 = queue1 @ temp_list
               in if Some v = v_end then Inr visited1
                  else d_bfs_loop M v_end visited1 queue2)
        else if Some v = v_end then Inr visited
        else d_bfs_loop M v_end visited queue1)"
  by pat_completeness auto

termination d_bfs_loop
proof (relation "measures [\<lambda>(M, v_end, visited, queue). d_unvisited M visited,
                          \<lambda>(M, v_end, visited, queue). length queue]", goal_cases)
  case 1
  show ?case by simp
next
  case (2 M v_end visited queue v queue1 row)
  then show ?case by (simp add: d_unvisited_less)
next
  case (3 M v_end visited queue v queue1)
  then show ?case by (cases queue) auto
qed

declare d_bfs_loop.simps [simp del]

definition d_bfs :: "DirectedGraph \<Rightarrow> int \<Rightarrow> int option \<Rightarrow> py_error + int list" where
  "d_bfs g v_start v_end =
     (if v_start > int (length (adj_matrix g)) then Inr []
      else d_bfs_loop (adj_matrix g) v_end [] [v_start])"

text \<open>
  The edges of a directed graph: the nonzero entries of the matrix, between vertex ids.
\<close>

definition d_vertices :: "DirectedGraph \<Rightarrow> int set" where
  "d_vertices g = {v. 0 \<le> v \<and> v < int (v_count g)}"

definition d_edge :: "DirectedGraph \<Rightarrow> (int \<times> int) set" where
  "d_edge g = {(i, j). i \<in> d_vertices g \<and> j \<in> d_vertices g \<and> adj_matrix g ! nat i ! nat j \<noteq> 0}"

text \<open>The ascending list of the neighbours of a vertex, as both traversals compute it.\<close>

definition d_nb :: "DirectedGraph \<Rightarrow> int \<Rightarrow> int list" where
  "d_nb g v = sort (d_adjacent (adj_matrix g ! nat v) 0 [])"

section \<open>dijkstra (d\_graph.py)\<close>

text \<open>
  The entries of the distance list are \<^verbatim>\<open>float('inf')\<close> or sums of integer weights.
  \<^verbatim>\<open>d < map[v]\<close> compares an integer with such an entry; every integer is below
  infinity.
\<close>

datatype dist = Fin int | Inf

fun dist_less :: "int \<Rightarrow> dist \<Rightarrow> bool" where
  "dist_less d Inf = True"
| "dist_less d (Fin m) = (d < m)"

text \<open>
  The inner \<^verbatim>\<open>for d in self.adj_matrix[v]\<close> loop with its counter \<open>vi\<close>: an edge to a
  vertex that is not in \<open>visited\<close> is queued; an edge to a visited vertex is queued when
  \<^verbatim>\<open>(di + d) < map[vi]\<close>, which reads the distance list and can raise.
\<close>

fun dijkstra_edges ::
  "int list \<Rightarrow> int \<Rightarrow> int \<Rightarrow> int list \<Rightarrow> dist list \<Rightarrow> (int \<times> int) list
     \<Rightarrow> py_error + (int \<times> int) list" where
  "dijkstra_edges [] vi di visited map' queue = Inr queue"
| "dijkstra_edges (d # row) vi di visited map' queue =
     (if d \<noteq> 0 \<and> vi \<notin> set visited
      then dijkstra_edges row (vi + 1) di visited map' (queue @ [(vi, di + d)])
      else if d \<noteq> 0 \<and> vi \<in> set visited
      then (case py_get map' vi of
              Inl e \<Rightarrow> Inl e
            | Inr m \<Rightarrow>
                if dist_less (di + d) m
                then dijkstra_edges row (vi + 1) di visited map' (queue @ [(vi, di + d)])
                else dijkstra_edges row (vi + 1) di visited map' queue)
      else dijkstra_edges row (vi + 1) di visited map' queue)"

text \<open>
  The body of the \<^verbatim>\<open>while len(queue) != 0\<close> loop for the head \<open>(v, d)\<close> of the queue:
  the new distance list, visited list and queue, or the exception.
\<close>

definition dijkstra_step ::
  "int list list \<Rightarrow> dist list \<Rightarrow> int list \<Rightarrow> int \<Rightarrow> int \<Rightarrow> (int \<times> int) list
     \<Rightarrow> py_error + (dist list \<times> int list \<times> (int \<times> int) list)" where
  "dijkstra_step M map' visited v d queue1 =
     (case py_get map' v of
        Inl e \<Rightarrow> Inl e
      | Inr m \<Rightarrow>
          (case (if dist_less d m then py_set map' v (Fin d) else Inr map') of
             Inl e \<Rightarrow> Inl e
           | Inr map1 \<Rightarrow>
               (case py_get M v of
                  Inl e \<Rightarrow> Inl e
                | Inr row \<Rightarrow>
                    (case dijkstra_edges row 0 d visited map1 queue1 of
                       Inl e \<Rightarrow> Inl e
                     | Inr queue2 \<Rightarrow> Inr (map1, visited @ [v], queue2)))))"

text \<open>
  The loop. Nothing in its text bounds the number of iterations, so the model is a
  partial function: \<open>None\<close> is a run that does not end.
\<close>

partial_function (option) dijkstra_loop ::
  "int list list \<Rightarrow> dist list \<Rightarrow> int list \<Rightarrow> (int \<times> int) list \<Rightarrow> (py_error + dist list) option" where
  "dijkstra_loop M map' visited queue =
     (if queue = [] then Some (Inr map')
      else
        case dijkstra_step M map' visited (fst (hd queue)) (snd (hd queue)) (tl queue) of
          Inl e \<Rightarrow> Some (Inl e)
        | Inr s \<Rightarrow> dijkstra_loop M (fst s) (fst (snd s)) (snd (snd s)))"

declare dijkstra_loop.simps [code]

definition dijkstra :: "DirectedGraph \<Rightarrow> int \<Rightarrow> (py_error + dist list) option" where
  "dijkstra g src = dijkstra_loop (adj_matrix g) (replicate (v_count g) Inf) [] [(src, 0)]"

text \<open>The weights the class admits: no entry of the matrix is negative.\<close>

definition d_nonneg :: "DirectedGraph \<Rightarrow> bool" where
  "d_nonneg g = list_all (list_all (\<lambda>w. 0 \<le> w)) (adj_matrix g)"

text \<open>
  Directed paths as vertex lists, and the sum of the weights along one.
\<close>

fun d_walk :: "DirectedGraph \<Rightarrow> int list \<Rightarrow> bool" where
  "d_walk g [] = False"
| "d_walk g [v] = (v \<in> d_vertices g)"
| "d_walk g (v # u # p) = ((v, u) \<in> d_edge g \<and> d_walk g (u # p))"

fun d_weight :: "DirectedGraph \<Rightarrow> int list \<Rightarrow> int" where
  "d_weight g [] = 0"
| "d_weight g [v] = 0"
| "d_weight g (v # u # p) = adj_matrix g ! nat v ! nat u + d_weight g (u # p)"

definition d_path :: "DirectedGraph \<Rightarrow> int \<Rightarrow> int \<Rightarrow> int list \<Rightarrow> bool" where
  "d_path g src v p = (d_walk g p \<and> hd p = src \<and> last p = v)"

section \<open>UndirectedGraph (ud\_graph.py)\<close>

text \<open>
  \<^verbatim>\<open>self.adj_list\<close> is a dict from labels to lists of labels. A Python dict keeps
  its keys in insertion order and the methods iterate over it, so it is an association
  list with distinct keys: \<open>map_of\<close> is \<^verbatim>\<open>get\<close>, \<open>AList.update\<close> stores
  under a key (in place when the key exists, at the end otherwise) and
  \<open>AList.delete\<close> is \<^verbatim>\<open>pop\<close>. Labels are strings, ordered as Python orders
  them (lexicographically by character code).
\<close>

type_synonym UndirectedGraph = "(string \<times> string list) list"

definition ud_init :: UndirectedGraph where
  "ud_init = []"

definition ud_add_vertex :: "UndirectedGraph \<Rightarrow> string \<Rightarrow> UndirectedGraph" where
  "ud_add_vertex g v = (if v \<notin> fst ` set g then AList.update v [] g else g)"

text \<open>\<^verbatim>\<open>x in self.adj_list.get(k)\<close>: membership in \<open>None\<close> raises TypeError.\<close>

definition ud_in_get :: "UndirectedGraph \<Rightarrow> string \<Rightarrow> string \<Rightarrow> py_error + bool" where
  "ud_in_get g x k = (case map_of g k of None \<Rightarrow> Inl TypeError | Some adj \<Rightarrow> Inr (x \<in> set adj))"

text \<open>\<^verbatim>\<open>self.adj_list[k].append(x)\<close> and \<^verbatim>\<open>self.adj_list[k].remove(x)\<close>.\<close>

definition ud_append :: "UndirectedGraph \<Rightarrow> string \<Rightarrow> string \<Rightarrow> py_error + UndirectedGraph" where
  "ud_append g k x =
     (case map_of g k of None \<Rightarrow> Inl KeyError | Some adj \<Rightarrow> Inr (AList.update k (adj @ [x]) g))"

definition ud_remove :: "UndirectedGraph \<Rightarrow> string \<Rightarrow> string \<Rightarrow> py_error + UndirectedGraph" where
  "ud_remove g k x =
     (case map_of g k of
        None \<Rightarrow> Inl KeyError
      | Some adj \<Rightarrow> if x \<in> set adj then Inr (AList.update k (remove1 x adj) g) else Inl ValueError)"

definition ud_add_edge :: "UndirectedGraph \<Rightarrow> string \<Rightarrow> string \<Rightarrow> py_error + UndirectedGraph" where
  "ud_add_edge g u v =
     (let g1 = (if u \<notin> fst ` set g \<and> v \<noteq> u then ud_add_vertex g u else g);
          g2 = (if v \<notin> fst ` set g1 \<and> v \<noteq> u then ud_add_vertex g1 v else g1)
      in if v = u then Inr g2
         else case ud_in_get g2 v u of
           Inl e \<Rightarrow> Inl e
         | Inr True \<Rightarrow> Inr g2
         | Inr False \<Rightarrow>
             (case ud_in_get g2 u v of
                Inl e \<Rightarrow> Inl e
              | Inr True \<Rightarrow> Inr g2
              | Inr False \<Rightarrow>
                  (case ud_append g2 v u of
                     Inl e \<Rightarrow> Inl e
                   | Inr g3 \<Rightarrow> ud_append g3 u v)))"

text \<open>
  \<^verbatim>\<open>if v and u in self.adj_list and v in self.adj_list.get(u) and u in self.adj_list.get(v)\<close>:
  the first conjunct is the truth value of the string \<open>v\<close> (false for the empty
  string), the conjunction is evaluated left to right and stops at the first false one.
\<close>

definition ud_remove_edge :: "UndirectedGraph \<Rightarrow> string \<Rightarrow> string \<Rightarrow> py_error + UndirectedGraph" where
  "ud_remove_edge g v u =
     (if v = [] then Inr g
      else if u \<notin> fst ` set g then Inr g
      else case ud_in_get g v u of
        Inl e \<Rightarrow> Inl e
      | Inr False \<Rightarrow> Inr g
      | Inr True \<Rightarrow>
          (case ud_in_get g u v of
             Inl e \<Rightarrow> Inl e
           | Inr False \<Rightarrow> Inr g
           | Inr True \<Rightarrow>
               (case ud_remove g v u of
                  Inl e \<Rightarrow> Inl e
                | Inr g1 \<Rightarrow> ud_remove g1 u v)))"

definition ud_remove_vertex :: "UndirectedGraph \<Rightarrow> string \<Rightarrow> UndirectedGraph" where
  "ud_remove_vertex g v =
     (if v \<in> fst ` set g
      then map (\<lambda>(key, adj). (key, if v \<in> set adj then remove1 v adj else adj)) (AList.delete v g)
      else g)"

datatype ud_op = UAddVertex string | UAddEdge string string | URemoveEdge string string
  | URemoveVertex string

fun ud_apply :: "UndirectedGraph \<Rightarrow> ud_op \<Rightarrow> py_error + UndirectedGraph" where
  "ud_apply g (UAddVertex v) = Inr (ud_add_vertex g v)"
| "ud_apply g (UAddEdge u v) = ud_add_edge g u v"
| "ud_apply g (URemoveEdge v u) = ud_remove_edge g v u"
| "ud_apply g (URemoveVertex v) = Inr (ud_remove_vertex g v)"

fun ud_run :: "UndirectedGraph \<Rightarrow> ud_op list \<Rightarrow> py_error + UndirectedGraph" where
  "ud_run g [] = Inr g"
| "ud_run g (c # cs) = (case ud_apply g c of Inl e \<Rightarrow> Inl e | Inr g' \<Rightarrow> ud_run g' cs)"

text \<open>The adjacency list of a label; a label that is not a vertex has no neighbours.\<close>

definition ud_adj :: "UndirectedGraph \<Rightarrow> string \<Rightarrow> string list" where
  "ud_adj g v = (case map_of g v of None \<Rightarrow> [] | Some adj \<Rightarrow> adj)"

text \<open>\<^verbatim>\<open>self.adj_list[v]\<close>: a missing key raises KeyError.\<close>

definition ud_lookup :: "UndirectedGraph \<Rightarrow> string \<Rightarrow> py_error + string list" where
  "ud_lookup g v = (case map_of g v of None \<Rightarrow> Inl KeyError | Some adj \<Rightarrow> Inr adj)"

definition ud_unvisited :: "UndirectedGraph \<Rightarrow> string list \<Rightarrow> nat" where
  "ud_unvisited g visited = card (fst ` set g - set visited)"

lemma ud_unvisited_less:
  assumes "v \<notin> set visited" and "ud_lookup g v = Inr adj"
  shows "ud_unvisited g (visited @ [v]) < ud_unvisited g visited"
proof -
  from assms(2) have "map_of g v = Some adj"
    by (cases "map_of g v") (simp_all add: ud_lookup_def)
  then have "(v, adj) \<in> set g" by (rule map_of_SomeD)
  then have "v \<in> fst ` set g" by force
  with assms(1) have "fst ` set g - insert v (set visited) \<subset> fst ` set g - set visited" by blast
  moreover have "finite (fst ` set g - set visited)" by simp
  ultimately have "card (fst ` set g - insert v (set visited)) < card (fst ` set g - set visited)"
    by (rule psubset_card_mono[rotated])
  then show ?thesis by (simp add: ud_unvisited_def)
qed

text \<open>
  The \<^verbatim>\<open>while len(stack) != 0\<close> loop of dfs. The inner loop copies the adjacency list
  into \<^verbatim>\<open>temp_list\<close>, which is then sorted in reverse.
\<close>

function ud_dfs_loop ::
  "UndirectedGraph \<Rightarrow> string option \<Rightarrow> string list \<Rightarrow> string list \<Rightarrow> py_error + string list" where
  "ud_dfs_loop g v_end visited stack =
     (if stack = [] then Inr visited
      else
        let v = last stack; stack1 = butlast stack in
        if v \<notin> set visited then
          (case ud_lookup g v of
             Inl e \<Rightarrow> Inl e
           | Inr adj \<Rightarrow>
               let visited1 = visited @ [v];
                   temp_list = rev (sort adj);
                   stack2 = stack1 @ temp_list
               in if Some v = v_end then Inr visited1
                  else ud_dfs_loop g v_end visited1 stack2)
        else if Some v = v_end then Inr visited
        else ud_dfs_loop g v_end visited stack1)"
  by pat_completeness auto

termination ud_dfs_loop
proof (relation "measures [\<lambda>(g, v_end, visited, stack). ud_unvisited g visited,
                          \<lambda>(g, v_end, visited, stack). length stack]", goal_cases)
  case 1
  show ?case by simp
next
  case (2 g v_end visited stack v stack1 adj)
  then show ?case by (simp add: ud_unvisited_less)
next
  case (3 g v_end visited stack v stack1)
  then show ?case by (cases stack rule: rev_cases) auto
qed

declare ud_dfs_loop.simps [simp del]

definition ud_dfs :: "UndirectedGraph \<Rightarrow> string \<Rightarrow> string option \<Rightarrow> py_error + string list" where
  "ud_dfs g v_start v_end =
     (if v_start \<notin> fst ` set g then Inr [] else ud_dfs_loop g v_end [] [v_start])"

text \<open>The \<^verbatim>\<open>while len(queue) != 0\<close> loop of bfs.\<close>

function ud_bfs_loop ::
  "UndirectedGraph \<Rightarrow> string option \<Rightarrow> string list \<Rightarrow> string list \<Rightarrow> py_error + string list" where
  "ud_bfs_loop g v_end visited queue =
     (if queue = [] then Inr visited
      else
        let v = hd queue; queue1 = tl queue in
        if v \<notin> set visited then
          (case ud_lookup g v of
             Inl e \<Rightarrow> Inl e
           | Inr adj \<Rightarrow>
               let visited1 = visited @ [v];
                   temp_list = sort adj;
                   queue2 = queue1 @ temp_list
               in if Some v = v_end then Inr visited1
                  else ud_bfs_loop g v_end visited1 queue2)
        else if Some v = v_end then Inr visited
        else ud_bfs_loop g v_end visited queue1)"
  by pat_completeness auto

termination ud_bfs_loop
proof (relation "measures [\<lambda>(g, v_end, visited, queue). ud_unvisited g visited,
                          \<lambda>(g, v_end, visited, queue). length queue]", goal_cases)
  case 1
  show ?case by simp
next
  case (2 g v_end visited queue v queue1 adj)
  then show ?case by (simp add: ud_unvisited_less)
next
  case (3 g v_end visited queue v queue1)
  then show ?case by (cases queue) auto
qed

declare ud_bfs_loop.simps [simp del]

definition ud_bfs :: "UndirectedGraph \<Rightarrow> string \<Rightarrow> string option \<Rightarrow> py_error + string list" where
  "ud_bfs g v_start v_end =
     (if v_start \<notin> fst ` set g then Inr [] else ud_bfs_loop g v_end [] [v_start])"

text \<open>The edges and the reachable vertices of an undirected graph.\<close>

definition ud_edge :: "UndirectedGraph \<Rightarrow> (string \<times> string) set" where
  "ud_edge g = {(v, u). u \<in> set (ud_adj g v)}"

definition ud_nb :: "UndirectedGraph \<Rightarrow> string \<Rightarrow> string list" where
  "ud_nb g v = sort (ud_adj g v)"

text \<open>The invariants of the class: distinct keys, symmetric adjacency, no self-loop, no duplicate neighbour.\<close>

definition ud_inv :: "UndirectedGraph \<Rightarrow> bool" where
  "ud_inv g = (distinct (map fst g)
     \<and> (\<forall>u v. (u \<in> set (ud_adj g v)) = (v \<in> set (ud_adj g u)))
     \<and> (\<forall>v. v \<notin> set (ud_adj g v))
     \<and> (\<forall>v. distinct (ud_adj g v)))"

section \<open>has\_cycle (d\_graph.py and ud\_graph.py)\<close>

text \<open>
  \<^verbatim>\<open>has_Cycle_helper\<close> calls itself from inside its loop and changes the list \<open>visited\<close>
  that it shares with its caller, so the model passes the list in and returns it with the
  result. The depth of the recursion is the fuel: \<open>None\<close> is a run that needs more. The
  helper and its \<^verbatim>\<open>for\<close> loop are mutually recursive.

  DirectedGraph: the helper appends \<open>v\<close>, scans row \<open>v\<close> with the counter \<open>count\<close>,
  and removes the last element of \<open>visited\<close> before it returns False
  (\<^verbatim>\<open>visited.pop(len(visited) - 1)\<close>, an IndexError on the empty list).
\<close>

fun d_has_Cycle_helper ::
    "nat \<Rightarrow> int list list \<Rightarrow> int \<Rightarrow> int list \<Rightarrow> (py_error + bool \<times> int list) option"
  and d_has_Cycle_for ::
    "nat \<Rightarrow> int list list \<Rightarrow> int list \<Rightarrow> int \<Rightarrow> int list \<Rightarrow> (py_error + bool \<times> int list) option"
  where
  "d_has_Cycle_helper 0 M v visited = None"
| "d_has_Cycle_helper (Suc fuel) M v visited =
     (case py_get M v of
        Inl e \<Rightarrow> Some (Inl e)
      | Inr row \<Rightarrow> d_has_Cycle_for fuel M row 0 (visited @ [v]))"
| "d_has_Cycle_for fuel M [] count visited =
     (if visited = [] then Some (Inl IndexError) else Some (Inr (False, butlast visited)))"
| "d_has_Cycle_for fuel M (i # row) count visited =
     (if count \<notin> set visited \<and> i \<noteq> 0 then
        (case d_has_Cycle_helper fuel M count visited of
           None \<Rightarrow> None
         | Some (Inl e) \<Rightarrow> Some (Inl e)
         | Some (Inr (found, visited1)) \<Rightarrow>
             if found then Some (Inr (True, visited1))
             else d_has_Cycle_for fuel M row (count + 1) visited1)
      else if count \<in> set visited \<and> i \<noteq> 0 then Some (Inr (True, visited))
      else d_has_Cycle_for fuel M row (count + 1) visited)"

text \<open>The loop of \<^verbatim>\<open>has_cycle\<close> over the rows, with its counter.\<close>

fun d_has_cycle_for ::
  "nat \<Rightarrow> int list list \<Rightarrow> int list list \<Rightarrow> int \<Rightarrow> int list \<Rightarrow> (py_error + bool) option" where
  "d_has_cycle_for fuel M [] count visited = Some (Inr False)"
| "d_has_cycle_for fuel M (v # rows) count visited =
     (if count \<notin> set visited then
        (case d_has_Cycle_helper fuel M count visited of
           None \<Rightarrow> None
         | Some (Inl e) \<Rightarrow> Some (Inl e)
         | Some (Inr (found, visited1)) \<Rightarrow>
             if found then Some (Inr True)
             else d_has_cycle_for fuel M rows (count + 1) visited1)
      else d_has_cycle_for fuel M rows (count + 1) visited)"

definition d_has_cycle :: "nat \<Rightarrow> DirectedGraph \<Rightarrow> (py_error + bool) option" where
  "d_has_cycle fuel g = d_has_cycle_for fuel (adj_matrix g) (adj_matrix g) 0 []"

text \<open>
  UndirectedGraph: the helper appends \<open>v\<close> and scans its adjacency list, passing
  \<open>v\<close> as the parent of every call it makes; \<open>parent\<close> is \<open>None\<close> for the
  \<^verbatim>\<open>-1\<close> that \<^verbatim>\<open>has_cycle\<close> passes, which equals no label.
\<close>

fun ud_has_Cycle_helper ::
    "nat \<Rightarrow> UndirectedGraph \<Rightarrow> string \<Rightarrow> string list \<Rightarrow> string option
       \<Rightarrow> (py_error + bool \<times> string list) option"
  and ud_has_Cycle_for ::
    "nat \<Rightarrow> UndirectedGraph \<Rightarrow> string \<Rightarrow> string list \<Rightarrow> string list \<Rightarrow> string option
       \<Rightarrow> (py_error + bool \<times> string list) option"
  where
  "ud_has_Cycle_helper 0 g v visited parent = None"
| "ud_has_Cycle_helper (Suc fuel) g v visited parent =
     (case ud_lookup g v of
        Inl e \<Rightarrow> Some (Inl e)
      | Inr adj \<Rightarrow> ud_has_Cycle_for fuel g v adj (visited @ [v]) parent)"
| "ud_has_Cycle_for fuel g v [] visited parent = Some (Inr (False, visited))"
| "ud_has_Cycle_for fuel g v (i # adj) visited parent =
     (if i \<notin> set visited then
        (case ud_has_Cycle_helper fuel g i visited (Some v) of
           None \<Rightarrow> None
         | Some (Inl e) \<Rightarrow> Some (Inl e)
         | Some (Inr (found, visited1)) \<Rightarrow>
             if found then Some (Inr (True, visited1))
             else ud_has_Cycle_for fuel g v adj visited1 parent)
      else if parent \<noteq> Some i then Some (Inr (True, visited))
      else ud_has_Cycle_for fuel g v adj visited parent)"

fun ud_has_cycle_for ::
  "nat \<Rightarrow> UndirectedGraph \<Rightarrow> string list \<Rightarrow> string list \<Rightarrow> (py_error + bool) option" where
  "ud_has_cycle_for fuel g [] visited = Some (Inr False)"
| "ud_has_cycle_for fuel g (v # keys) visited =
     (if v \<notin> set visited then
        (case ud_has_Cycle_helper fuel g v visited None of
           None \<Rightarrow> None
         | Some (Inl e) \<Rightarrow> Some (Inl e)
         | Some (Inr (found, visited1)) \<Rightarrow>
             if found then Some (Inr True)
             else ud_has_cycle_for fuel g keys visited1)
      else ud_has_cycle_for fuel g keys visited)"

definition ud_has_cycle :: "nat \<Rightarrow> UndirectedGraph \<Rightarrow> (py_error + bool) option" where
  "ud_has_cycle fuel g = ud_has_cycle_for fuel g (map fst g) []"

text \<open>
  A cycle of an undirected graph: at least three distinct vertices, each adjacent to the
  next and the last to the first.
\<close>

definition ud_cycle :: "UndirectedGraph \<Rightarrow> string list \<Rightarrow> bool" where
  "ud_cycle g cs =
     (3 \<le> length cs \<and> distinct cs
      \<and> (\<forall>k<length cs. (cs ! k, cs ! (Suc k mod length cs)) \<in> ud_edge g))"

section \<open>What a traversal has to return\<close>

text \<open>
  The list of first occurrences: each element is kept where it occurs first.
\<close>

definition firsts :: "'a list \<Rightarrow> 'a list" where
  "firsts xs = rev (remdups (rev xs))"

text \<open>
  Depth-first order over an edge relation. Whenever \<open>x\<close> follows the nonempty prefix
  \<open>ys\<close> of the list, some vertex of \<open>ys\<close> has a neighbour outside \<open>ys\<close>; with
  \<open>v\<close> the last such vertex of \<open>ys\<close> (no vertex after it in \<open>ys\<close> has one), \<open>x\<close>
  is the least neighbour of \<open>v\<close> outside \<open>ys\<close>. So the list goes on from the vertex
  visited last while it has an unvisited neighbour, falls back to the vertex visited most
  recently that has one, and takes the neighbours of each vertex in ascending order.
\<close>

definition dfs_order :: "('a::linorder \<times> 'a) set \<Rightarrow> 'a list \<Rightarrow> bool" where
  "dfs_order E vs =
     (\<forall>ys x zs. vs = ys @ x # zs \<and> ys \<noteq> [] \<longrightarrow>
        (\<exists>before v after. ys = before @ v # after
           \<and> {u. (v, u) \<in> E \<and> u \<notin> set ys} \<noteq> {}
           \<and> x = Min {u. (v, u) \<in> E \<and> u \<notin> set ys}
           \<and> (\<forall>w\<in>set after. {u. (w, u) \<in> E \<and> u \<notin> set ys} = {})))"

text \<open>
  Breadth-first order over an edge relation: the result is the start followed by the
  ascending neighbour lists of the result's own vertices, in order, each vertex kept
  where it occurs first.
\<close>

definition bfs_order :: "('a::linorder \<times> 'a) set \<Rightarrow> 'a \<Rightarrow> 'a list \<Rightarrow> bool" where
  "bfs_order E s vs =
     (vs = firsts (s # concat (map (\<lambda>v. sorted_list_of_set {u. (v, u) \<in> E}) vs)))"

text \<open>
  The loop invariants of the two worklist loops, over a function \<open>nb\<close> that gives the
  ascending neighbour list of a vertex of \<open>V\<close>.
\<close>

definition nb_rel :: "'a set \<Rightarrow> ('a \<Rightarrow> 'a list) \<Rightarrow> ('a \<times> 'a) set" where
  "nb_rel V nb = {(v, u). v \<in> V \<and> u \<in> set (nb v)}"

definition nb_ok :: "'a::linorder set \<Rightarrow> ('a \<Rightarrow> 'a list) \<Rightarrow> bool" where
  "nb_ok V nb = (\<forall>v\<in>V. sorted (nb v) \<and> distinct (nb v) \<and> set (nb v) \<subseteq> V)"

definition work_inv :: "'a set \<Rightarrow> ('a \<Rightarrow> 'a list) \<Rightarrow> 'a \<Rightarrow> 'a list \<Rightarrow> 'a list \<Rightarrow> bool" where
  "work_inv V nb s visited work =
     (distinct visited \<and> set visited \<subseteq> V \<and> set work \<subseteq> V
      \<and> set visited \<union> set work \<subseteq> {v. (s, v) \<in> (nb_rel V nb)\<^sup>*}
      \<and> s \<in> set visited \<union> set work
      \<and> (\<forall>v\<in>set visited. set (nb v) \<subseteq> set visited \<union> set work))"

text \<open>
  The stack of dfs, read from its top, is the concatenation of what is left of the
  ascending neighbour lists of the visited vertices, the vertex visited last first; what
  has been taken from a list is visited. Before the first iteration the stack holds the
  start alone.
\<close>

definition dfs_frames :: "('a \<Rightarrow> 'a list) \<Rightarrow> 'a \<Rightarrow> 'a list \<Rightarrow> 'a list \<Rightarrow> bool" where
  "dfs_frames nb s visited stack =
     (if visited = [] then stack = [s]
      else hd visited = s
        \<and> (\<exists>frames. map fst frames = rev visited \<and> rev stack = concat (map snd frames)
              \<and> (\<forall>fr\<in>set frames. \<exists>pre. nb (fst fr) = pre @ snd fr \<and> set pre \<subseteq> set visited)))"

definition dfs_inv :: "'a::linorder set \<Rightarrow> ('a \<Rightarrow> 'a list) \<Rightarrow> 'a \<Rightarrow> 'a list \<Rightarrow> 'a list \<Rightarrow> bool" where
  "dfs_inv V nb s visited stack =
     (work_inv V nb s visited stack \<and> dfs_order (nb_rel V nb) visited
      \<and> dfs_frames nb s visited stack)"

definition bfs_inv :: "'a set \<Rightarrow> ('a \<Rightarrow> 'a list) \<Rightarrow> 'a \<Rightarrow> 'a list \<Rightarrow> 'a list \<Rightarrow> bool" where
  "bfs_inv V nb s visited queue =
     (work_inv V nb s visited queue
      \<and> (\<exists>done. done @ queue = s # concat (map nb visited) \<and> visited = firsts done))"

section \<open>The invariant of the dijkstra loop\<close>

text \<open>
  What the inner loop appends to the queue, as a list of its own.
\<close>

fun dj_children :: "int list \<Rightarrow> int \<Rightarrow> int \<Rightarrow> int list \<Rightarrow> dist list \<Rightarrow> (int \<times> int) list" where
  "dj_children [] vi di visited map' = []"
| "dj_children (d # row) vi di visited map' =
     (if d \<noteq> 0 \<and> (vi \<notin> set visited \<or> dist_less (di + d) (map' ! nat vi))
      then [(vi, di + d)] else [])
     @ dj_children row (vi + 1) di visited map'"

text \<open>
  Every queue entry \<open>(v, d)\<close> stands for a path from the source to \<open>v\<close> of weight
  \<open>d\<close>. Each vertex of the path before the last has been taken from the queue with the
  weight of the path up to it, so it is visited and its recorded distance is not above
  that weight; and no vertex occurs on the path more than twice.
\<close>

definition dj_settled :: "DirectedGraph \<Rightarrow> dist list \<Rightarrow> int list \<Rightarrow> int list \<Rightarrow> bool" where
  "dj_settled g map' visited p =
     (\<forall>k. 0 < k \<and> k < length p \<longrightarrow>
        p ! (k - 1) \<in> set visited
        \<and> (\<exists>m. map' ! nat (p ! (k - 1)) = Fin m \<and> m \<le> d_weight g (take k p)))"

definition dj_good ::
  "DirectedGraph \<Rightarrow> int \<Rightarrow> dist list \<Rightarrow> int list \<Rightarrow> int \<times> int \<Rightarrow> int list \<Rightarrow> bool" where
  "dj_good g src map' visited e p =
     (d_path g src (fst e) p \<and> d_weight g p = snd e \<and> dj_settled g map' visited p
      \<and> (\<forall>x. count_list p x \<le> 2))"

definition dj_inv ::
  "DirectedGraph \<Rightarrow> int \<Rightarrow> dist list \<Rightarrow> int list \<Rightarrow> (int \<times> int) list \<Rightarrow> int list list \<Rightarrow> bool" where
  "dj_inv g src map' visited queue ps =
     (length map' = v_count g \<and> set visited \<subseteq> d_vertices g
      \<and> (\<forall>v\<in>set visited. \<exists>m. map' ! nat v = Fin m)
      \<and> list_all2 (dj_good g src map' visited) queue ps)"

text \<open>The quantity that decreases with every iteration.\<close>

definition dj_measure :: "DirectedGraph \<Rightarrow> int list list \<Rightarrow> nat" where
  "dj_measure g ps =
     sum_list (map (\<lambda>p. (v_count g + 1) ^ (2 * v_count g + 1 - length p)) ps)"

text \<open>
  For the result: a recorded distance is the weight of a path from the source, and every
  edge out of a vertex with a recorded distance is either relaxed or still queued.
\<close>

definition dj_sound :: "DirectedGraph \<Rightarrow> int \<Rightarrow> dist list \<Rightarrow> bool" where
  "dj_sound g src map' =
     (\<forall>x m. x \<in> d_vertices g \<and> map' ! nat x = Fin m \<longrightarrow>
        (\<exists>p. d_path g src x p \<and> d_weight g p = m))"

definition dj_relaxed :: "DirectedGraph \<Rightarrow> int \<Rightarrow> dist list \<Rightarrow> (int \<times> int) list \<Rightarrow> bool" where
  "dj_relaxed g src map' queue =
     (((\<exists>m. map' ! nat src = Fin m \<and> m \<le> 0) \<or> (src, 0) \<in> set queue)
      \<and> (\<forall>x y m. (x, y) \<in> d_edge g \<and> map' ! nat x = Fin m \<longrightarrow>
            (\<exists>m'. map' ! nat y = Fin m' \<and> m' \<le> m + adj_matrix g ! nat x ! nat y)
            \<or> (y, m + adj_matrix g ! nat x ! nat y) \<in> set queue))"

text \<open>The distance list after the update at the head of the queue.\<close>

definition dj_map1 :: "dist list \<Rightarrow> int \<Rightarrow> int \<Rightarrow> dist list" where
  "dj_map1 map' v d = (if dist_less d (map' ! nat v) then map'[nat v := Fin d] else map')"

section \<open>What has\_cycle has to decide\<close>

text \<open>A directed graph has a cycle when some vertex reaches itself along at least one edge.\<close>

definition d_cyclic :: "DirectedGraph \<Rightarrow> bool" where
  "d_cyclic g = (\<exists>w. (w, w) \<in> (d_edge g)\<^sup>+)"

text \<open>
  What a call of the directed helper on \<open>v\<close> finds when the vertices of \<open>A\<close> are on the
  recursion stack: a way back into the stack, or a cycle that \<open>v\<close> reaches.
\<close>

definition d_finds :: "DirectedGraph \<Rightarrow> int \<Rightarrow> int set \<Rightarrow> bool" where
  "d_finds g v A =
     ((\<exists>a\<in>A. (v, a) \<in> (d_edge g)\<^sup>+) \<or> (\<exists>w. (v, w) \<in> (d_edge g)\<^sup>* \<and> (w, w) \<in> (d_edge g)\<^sup>+))"

text \<open>
  For the undirected helper: the vertices visited before \<open>x\<close>, the part of the graph a
  finished call leaves closed (every neighbour of a vertex of \<open>S\<close> is in \<open>S\<close>, but for
  the parent \<open>p\<close> of the root \<open>v\<close>), and the order a run without a cycle leaves behind
  (no vertex of \<open>S\<close> has two neighbours visited before it).
\<close>

definition ud_earlier :: "string list \<Rightarrow> string \<Rightarrow> string set" where
  "ud_earlier vis x = set (takeWhile (\<lambda>u. u \<noteq> x) vis)"

definition ud_closed :: "UndirectedGraph \<Rightarrow> string set \<Rightarrow> string \<Rightarrow> string option \<Rightarrow> bool" where
  "ud_closed g S v p = (\<forall>x\<in>S. \<forall>y\<in>set (ud_adj g x). y \<in> S \<or> (x = v \<and> p = Some y))"

definition ud_order :: "UndirectedGraph \<Rightarrow> string list \<Rightarrow> string set \<Rightarrow> bool" where
  "ud_order g vis S =
     (\<forall>x\<in>S. \<forall>y z. y \<in> set (ud_adj g x) \<and> y \<in> ud_earlier vis x
               \<and> z \<in> set (ud_adj g x) \<and> z \<in> ud_earlier vis x \<longrightarrow> y = z)"

text \<open>
  What holds when the helper is called on \<open>v\<close> with the visited list \<open>A\<close> and the
  parent \<open>p\<close>: the calls in progress form a path \<open>stack\<close> that ends in the parent, and a
  visited vertex with a neighbour that is not visited is on that path.
\<close>

definition ud_pre ::
  "UndirectedGraph \<Rightarrow> string list \<Rightarrow> string list \<Rightarrow> string option \<Rightarrow> string \<Rightarrow> bool" where
  "ud_pre g A stack p v =
     (v \<in> fst ` set g \<and> v \<notin> set A \<and> distinct A \<and> set A \<subseteq> fst ` set g
      \<and> distinct stack \<and> set stack \<subseteq> set A
      \<and> successively (\<lambda>a b. b \<in> set (ud_adj g a)) stack
      \<and> (case p of None \<Rightarrow> stack = []
                  | Some q \<Rightarrow> stack \<noteq> [] \<and> last stack = q \<and> v \<in> set (ud_adj g q))
      \<and> (\<forall>y\<in>set A. \<forall>x\<in>set (ud_adj g y). x \<notin> set A \<longrightarrow> y \<in> set stack))"

definition ud_post ::
  "UndirectedGraph \<Rightarrow> string list \<Rightarrow> string option \<Rightarrow> string \<Rightarrow> bool \<Rightarrow> string list \<Rightarrow> bool" where
  "ud_post g A p v found vis' =
     ((found \<longrightarrow> (\<exists>cs. ud_cycle g cs))
      \<and> (\<not> found \<longrightarrow>
           (\<exists>new. vis' = A @ v # new \<and> distinct vis' \<and> set vis' \<subseteq> fst ` set g
                  \<and> ud_closed g (set (v # new)) v p \<and> ud_order g vis' (set (v # new)))))"

text \<open>Between two calls of the helper from \<^verbatim>\<open>has_cycle\<close>.\<close>

definition ud_top :: "UndirectedGraph \<Rightarrow> string list \<Rightarrow> bool" where
  "ud_top g vis =
     (distinct vis \<and> set vis \<subseteq> fst ` set g
      \<and> (\<forall>x\<in>set vis. set (ud_adj g x) \<subseteq> set vis) \<and> ud_order g vis (set vis))"

section \<open>Concrete graphs\<close>

definition d_graph1 :: DirectedGraph where
  "d_graph1 = \<lparr>v_count = 1, adj_matrix = [[0]]\<rparr>"

definition d_graph2 :: DirectedGraph where
  "d_graph2 = \<lparr>v_count = 2, adj_matrix = [[0, 0], [0, 0]]\<rparr>"

lemma d_graph1_built: "d_run d_init [AddVertex] = Inr d_graph1"
  by (simp add: d_init_def d_add_vertex_def d_graph1_def)

lemma d_graph2_built: "d_run d_init [AddVertex, AddVertex] = Inr d_graph2"
  by (simp add: d_init_def d_add_vertex_def d_graph2_def numeral_2_eq_2)

definition d_graph3 :: DirectedGraph where
  "d_graph3 = \<lparr>v_count = 3, adj_matrix = [[0, 10, 20], [0, 0, 5], [0, 0, 0]]\<rparr>"

definition d_graph_star :: DirectedGraph where
  "d_graph_star =
     \<lparr>v_count = 4, adj_matrix = [[0, 1, 1, 1], [0, 0, 0, 0], [0, 0, 0, 0], [0, 0, 0, 0]]\<rparr>"

definition ud_triangle :: UndirectedGraph where
  "ud_triangle = [(''A'', [''B'', ''C'']), (''B'', [''A'', ''C'']), (''C'', [''B'', ''A''])]"

lemma d_graph3_built:
  "d_run d_init [AddVertex, AddVertex, AddVertex, AddEdge 0 1 10, AddEdge 1 2 5, AddEdge 0 2 20]
     = Inr d_graph3"
  by (simp add: d_init_def d_add_vertex_def d_graph3_def d_add_edge_def d_store_def py_get_def
      py_set_def py_valid_def py_norm_def numeral_2_eq_2 numeral_3_eq_3)

lemma d_graph_star_built:
  "d_run d_init [AddVertex, AddVertex, AddVertex, AddVertex, AddEdge 0 1 1, AddEdge 0 2 1,
      AddEdge 0 3 1] = Inr d_graph_star"
  by (simp add: d_init_def d_add_vertex_def d_graph_star_def d_add_edge_def d_store_def py_get_def
      py_set_def py_valid_def py_norm_def numeral_2_eq_2 numeral_3_eq_3 eval_nat_numeral)

lemma ud_triangle_built:
  "ud_run ud_init [UAddEdge ''A'' ''B'', UAddEdge ''B'' ''C'', UAddEdge ''C'' ''A''] = Inr ud_triangle"
  by (simp add: ud_add_edge_def ud_init_def ud_add_vertex_def ud_in_get_def ud_append_def
      ud_triangle_def)

definition d_graph_loop :: DirectedGraph where
  "d_graph_loop = \<lparr>v_count = 2, adj_matrix = [[0, 3], [2, 4]]\<rparr>"

section \<open>Lemmas about the mutating methods\<close>

lemma d_store_valid:
  assumes "d_square g" "0 \<le> src" "src < int (v_count g)" "0 \<le> dst" "dst < int (v_count g)"
  shows "d_store g src dst w =
           Inr (g\<lparr>adj_matrix := (adj_matrix g)[nat src := (adj_matrix g ! nat src)[nat dst := w]]\<rparr>)"
proof -
  from assms have len: "length (adj_matrix g) = v_count g"
    and row: "length (adj_matrix g ! nat src) = v_count g"
    by (auto simp: d_square_def list_all_length)
  from assms len have g: "py_get (adj_matrix g) src = Inr (adj_matrix g ! nat src)"
    by (simp add: py_get_def py_valid_def py_norm_def)
  from assms row have s: "py_set (adj_matrix g ! nat src) dst w = Inr ((adj_matrix g ! nat src)[nat dst := w])"
    by (simp add: py_set_def py_valid_def py_norm_def)
  from assms show ?thesis by (simp add: d_store_def g s py_norm_def)
qed

lemma ud_adj_update: "ud_adj (AList.update k a g) v = (if v = k then a else ud_adj g v)"
  by (simp add: ud_adj_def update_conv')

lemma ud_adj_delete: "ud_adj (AList.delete k g) v = (if v = k then [] else ud_adj g v)"
  by (simp add: ud_adj_def delete_conv')

lemma ud_adj_map:
  "ud_adj (map (\<lambda>(key, adj). (key, f adj)) g) v = (if v \<in> fst ` set g then f (ud_adj g v) else [])"
proof (cases "map_of g v")
  case None
  then have "v \<notin> fst ` set g" by (simp add: map_of_eq_None_iff)
  with None show ?thesis by (simp add: ud_adj_def map_of_map)
next
  case (Some a)
  then have "(v, a) \<in> set g" by (rule map_of_SomeD)
  then have "v \<in> fst ` set g" by force
  with Some show ?thesis by (simp add: ud_adj_def map_of_map)
qed

lemma ud_adj_not_key: "v \<notin> fst ` set g \<Longrightarrow> ud_adj g v = []"
  by (simp add: ud_adj_def map_of_eq_None_iff[THEN iffD2])

lemma ud_inv_init: "ud_inv ud_init"
  by (simp add: ud_inv_def ud_init_def ud_adj_def)

lemma ud_inv_keys: "ud_inv g \<Longrightarrow> u \<in> set (ud_adj g v) \<Longrightarrow> u \<in> fst ` set g \<and> v \<in> fst ` set g"
  by (metis ud_inv_def ud_adj_not_key empty_iff list.set(1))

lemma ud_inv_add_vertex: "ud_inv g \<Longrightarrow> ud_inv (ud_add_vertex g v)"
  unfolding ud_inv_def ud_add_vertex_def
  by (auto simp: ud_adj_update distinct_update dest: ud_adj_not_key)

lemma ud_adj_key: "u \<in> set (ud_adj g v) \<Longrightarrow> v \<in> fst ` set g"
  by (cases "v \<in> fst ` set g") (simp_all add: ud_adj_not_key)

lemma ud_in_get_key: "k \<in> fst ` set g \<Longrightarrow> ud_in_get g x k = Inr (x \<in> set (ud_adj g k))"
  by (auto simp: ud_in_get_def ud_adj_def map_of_eq_None_iff split: option.splits)

lemma ud_append_key:
  "k \<in> fst ` set g \<Longrightarrow> ud_append g k x = Inr (AList.update k (ud_adj g k @ [x]) g)"
  by (auto simp: ud_append_def ud_adj_def map_of_eq_None_iff split: option.splits)

lemma ud_remove_key:
  "x \<in> set (ud_adj g k) \<Longrightarrow> ud_remove g k x = Inr (AList.update k (remove1 x (ud_adj g k)) g)"
  by (cases "map_of g k") (simp_all add: ud_remove_def ud_adj_def)

lemma ud_inv_link:
  assumes "ud_inv g" and "u \<noteq> v" and "u \<in> fst ` set g" and "v \<in> fst ` set g"
    and "v \<notin> set (ud_adj g u)"
  shows "ud_inv (AList.update u (ud_adj g u @ [v]) (AList.update v (ud_adj g v @ [u]) g))"
proof -
  from assms have "u \<notin> set (ud_adj g v)" by (simp add: ud_inv_def)
  with assms show ?thesis
    unfolding ud_inv_def by (auto simp: ud_adj_update distinct_update)
qed

lemma ud_inv_unlink:
  assumes "ud_inv g" and "u \<in> set (ud_adj g v)"
  shows "ud_inv (AList.update u (remove1 v (ud_adj g u)) (AList.update v (remove1 u (ud_adj g v)) g))"
proof -
  from assms have "v \<in> set (ud_adj g u)" "u \<noteq> v" by (auto simp: ud_inv_def)
  with assms show ?thesis
    unfolding ud_inv_def by (auto simp: ud_adj_update distinct_update)
qed

lemma ud_add_edge_inv:
  assumes "ud_inv g"
  shows "\<exists>g'. ud_add_edge g u v = Inr g' \<and> ud_inv g'"
proof (cases "v = u")
  case True
  with assms show ?thesis by (simp add: ud_add_edge_def)
next
  case False
  define g1 where "g1 = (if u \<notin> fst ` set g \<and> v \<noteq> u then ud_add_vertex g u else g)"
  define g2 where "g2 = (if v \<notin> fst ` set g1 \<and> v \<noteq> u then ud_add_vertex g1 v else g1)"
  have inv2: "ud_inv g2" using assms by (simp add: g1_def g2_def ud_inv_add_vertex)
  have ku: "u \<in> fst ` set g1" using False by (auto simp: g1_def ud_add_vertex_def dom_update)
  then have ku2: "u \<in> fst ` set g2" by (auto simp: g2_def ud_add_vertex_def dom_update)
  have kv2: "v \<in> fst ` set g2" using False by (auto simp: g2_def ud_add_vertex_def dom_update)
  have e: "ud_add_edge g u v =
     (case ud_in_get g2 v u of
           Inl e \<Rightarrow> Inl e
         | Inr True \<Rightarrow> Inr g2
         | Inr False \<Rightarrow>
             (case ud_in_get g2 u v of
                Inl e \<Rightarrow> Inl e
              | Inr True \<Rightarrow> Inr g2
              | Inr False \<Rightarrow>
                  (case ud_append g2 v u of
                     Inl e \<Rightarrow> Inl e
                   | Inr g3 \<Rightarrow> ud_append g3 u v)))"
    using False unfolding ud_add_edge_def g1_def g2_def Let_def by simp
  show ?thesis
  proof (cases "v \<in> set (ud_adj g2 u)")
    case True
    then show ?thesis using inv2 by (simp add: e ud_in_get_key ku2)
  next
    case nin: False
    with inv2 have nin': "u \<notin> set (ud_adj g2 v)" by (simp add: ud_inv_def)
    have ku3: "u \<in> fst ` set (AList.update v (ud_adj g2 v @ [u]) g2)"
      using ku2 by (simp add: dom_update)
    have "ud_add_edge g u v =
        Inr (AList.update u (ud_adj g2 u @ [v]) (AList.update v (ud_adj g2 v @ [u]) g2))"
      using nin nin' False
      by (simp add: e ud_in_get_key ku2 kv2 ud_append_key ku3 ud_adj_update)
    then show ?thesis using ud_inv_link[OF inv2 _ ku2 kv2 nin] False by auto
  qed
qed

lemma ud_remove_edge_inv:
  assumes "ud_inv g"
  shows "\<exists>g'. ud_remove_edge g v u = Inr g' \<and> ud_inv g'"
proof (cases "v \<noteq> [] \<and> u \<in> fst ` set g \<and> v \<in> set (ud_adj g u)")
  case False
  then show ?thesis using assms by (auto simp: ud_remove_edge_def ud_in_get_key)
next
  case True
  with assms have vu: "u \<in> set (ud_adj g v)" "u \<noteq> v" by (auto simp: ud_inv_def)
  have kv: "v \<in> fst ` set g" using vu(1) by (rule ud_adj_key)
  have r1: "ud_remove g v u = Inr (AList.update v (remove1 u (ud_adj g v)) g)"
    using vu by (simp add: ud_remove_key)
  have "v \<in> set (ud_adj (AList.update v (remove1 u (ud_adj g v)) g) u)"
    using True vu by (simp add: ud_adj_update)
  then have r2: "ud_remove (AList.update v (remove1 u (ud_adj g v)) g) u v =
      Inr (AList.update u (remove1 v (ud_adj g u)) (AList.update v (remove1 u (ud_adj g v)) g))"
    using vu by (simp add: ud_remove_key ud_adj_update)
  have "ud_remove_edge g v u =
      Inr (AList.update u (remove1 v (ud_adj g u)) (AList.update v (remove1 u (ud_adj g v)) g))"
    using True vu kv by (simp add: ud_remove_edge_def ud_in_get_key r1 r2)
  then show ?thesis using ud_inv_unlink[OF assms vu(1)] by simp
qed

lemma remove1_if: "(if v \<in> set adj then remove1 v adj else adj) = remove1 v adj"
  by (simp add: remove1_idem)

lemma ud_adj_remove_vertex:
  assumes "v \<in> fst ` set g"
  shows "ud_adj (ud_remove_vertex g v) w = (if w = v then [] else remove1 v (ud_adj g w))"
proof -
  have r: "ud_remove_vertex g v = map (\<lambda>(key, adj). (key, remove1 v adj)) (AList.delete v g)"
    using assms by (simp add: ud_remove_vertex_def remove1_if)
  have k: "fst ` set (AList.delete v g) = fst ` set g - {v}"
    by (auto simp: AList.delete_eq)
  show ?thesis
  proof (cases "w \<in> fst ` set g")
    case True
    then show ?thesis unfolding r by (simp add: ud_adj_map k ud_adj_delete)
  next
    case False
    then show ?thesis unfolding r by (simp add: ud_adj_map k ud_adj_not_key)
  qed
qed

lemma ud_inv_remove_vertex:
  assumes "ud_inv g"
  shows "ud_inv (ud_remove_vertex g v)"
proof (cases "v \<in> fst ` set g")
  case False
  with assms show ?thesis by (simp add: ud_remove_vertex_def)
next
  case True
  have d: "distinct (map fst (ud_remove_vertex g v))"
    using assms True by (simp add: ud_remove_vertex_def ud_inv_def case_prod_unfold comp_def distinct_delete)
  show ?thesis unfolding ud_inv_def
  proof (intro conjI allI)
    show "distinct (map fst (ud_remove_vertex g v))" by (rule d)
  next
    fix u w
    show "(u \<in> set (ud_adj (ud_remove_vertex g v) w)) = (w \<in> set (ud_adj (ud_remove_vertex g v) u))"
      using assms by (auto simp: ud_adj_remove_vertex[OF True] ud_inv_def)
  next
    fix w show "w \<notin> set (ud_adj (ud_remove_vertex g v) w)"
      using assms by (auto simp: ud_adj_remove_vertex[OF True] ud_inv_def dest: notin_set_remove1)
  next
    fix w show "distinct (ud_adj (ud_remove_vertex g v) w)"
      using assms by (auto simp: ud_adj_remove_vertex[OF True] ud_inv_def)
  qed
qed

lemma ud_apply_inv: "ud_inv g \<Longrightarrow> \<exists>g'. ud_apply g c = Inr g' \<and> ud_inv g'"
  by (cases c) (simp_all add: ud_inv_add_vertex ud_add_edge_inv ud_remove_edge_inv ud_inv_remove_vertex)

lemma ud_run_inv: "ud_inv g \<Longrightarrow> \<exists>g'. ud_run g cs = Inr g' \<and> ud_inv g'"
proof (induction cs arbitrary: g)
  case Nil
  then show ?case by simp
next
  case (Cons c cs)
  from ud_apply_inv[OF Cons.prems] obtain g1 where "ud_apply g c = Inr g1" "ud_inv g1" by blast
  with Cons.IH[of g1] show ?case by simp
qed

section \<open>Lemmas about the worklist invariants\<close>

lemma firsts_snoc: "firsts (xs @ [x]) = (if x \<in> set xs then firsts xs else firsts xs @ [x])"
  by (simp add: firsts_def)

lemma set_firsts: "set (firsts xs) = set xs"
  by (simp add: firsts_def)

lemma work_inv_init: "s \<in> V \<Longrightarrow> work_inv V nb s [] [s]"
  by (simp add: work_inv_def)

lemma work_inv_final:
  assumes "work_inv V nb s vs []"
  shows "distinct vs \<and> set vs = {v. (s, v) \<in> (nb_rel V nb)\<^sup>*}"
proof -
  from assms have s: "s \<in> set vs" and sub: "set vs \<subseteq> V"
    and reach: "set vs \<subseteq> {v. (s, v) \<in> (nb_rel V nb)\<^sup>*}"
    and closed: "\<And>v. v \<in> set vs \<Longrightarrow> set (nb v) \<subseteq> set vs" and d: "distinct vs"
    by (auto simp: work_inv_def)
  have "v \<in> set vs" if "(s, v) \<in> (nb_rel V nb)\<^sup>*" for v
    using that
  proof (induction rule: rtrancl_induct)
    case base
    show ?case by (rule s)
  next
    case (step y z)
    then have "z \<in> set (nb y)" by (simp add: nb_rel_def)
    with closed[OF step.IH] show ?case by blast
  qed
  with reach d show ?thesis by blast
qed

lemma work_inv_old:
  assumes "work_inv V nb s visited work" and "set work' \<subseteq> set work"
    and "set work \<subseteq> set work' \<union> set visited"
  shows "work_inv V nb s visited work'"
  using assms unfolding work_inv_def by blast

lemma work_inv_new:
  assumes "work_inv V nb s visited work" and "v \<in> set work" and "v \<notin> set visited"
    and "set work \<subseteq> insert v (set work1)" and "set work1 \<subseteq> set work"
    and "set work2 = set work1 \<union> set (nb v)" and "nb_ok V nb"
  shows "work_inv V nb s (visited @ [v]) work2"
proof -
  from assms have vV: "v \<in> V" and vr: "(s, v) \<in> (nb_rel V nb)\<^sup>*"
    by (auto simp: work_inv_def)
  from vV assms(7) have nbV: "set (nb v) \<subseteq> V" by (simp add: nb_ok_def)
  have nbr: "(s, u) \<in> (nb_rel V nb)\<^sup>*" if "u \<in> set (nb v)" for u
  proof -
    from that vV have "(v, u) \<in> nb_rel V nb" by (simp add: nb_rel_def)
    with vr show ?thesis by (rule rtrancl_into_rtrancl)
  qed
  from assms(1) have d: "distinct visited" and vis: "set visited \<subseteq> V" and wk: "set work \<subseteq> V"
    and r: "set visited \<union> set work \<subseteq> {v. (s, v) \<in> (nb_rel V nb)\<^sup>*}"
    and sin: "s \<in> set visited \<union> set work"
    and cl: "\<And>w. w \<in> set visited \<Longrightarrow> set (nb w) \<subseteq> set visited \<union> set work"
    by (auto simp: work_inv_def)
  show ?thesis unfolding work_inv_def
  proof (intro conjI ballI)
    show "distinct (visited @ [v])" using d assms(3) by simp
    show "set (visited @ [v]) \<subseteq> V" using vis vV by simp
    show "set work2 \<subseteq> V" using wk nbV assms(5,6) by blast
    show "set (visited @ [v]) \<union> set work2 \<subseteq> {v. (s, v) \<in> (nb_rel V nb)\<^sup>*}"
      using r vr nbr assms(5,6) by auto
    show "s \<in> set (visited @ [v]) \<union> set work2" using sin assms(4,6) by auto
  next
    fix w assume "w \<in> set (visited @ [v])"
    then consider "w \<in> set visited" | "w = v" by auto
    then show "set (nb w) \<subseteq> set (visited @ [v]) \<union> set work2"
    proof cases
      case 1
      from cl[OF 1] assms(4,6) show ?thesis by auto
    next
      case 2
      with assms(6) show ?thesis by auto
    qed
  qed
qed

lemma concat_snd_split:
  "concat (map snd frames) = x # rest \<Longrightarrow>
   \<exists>es v r fs. frames = es @ (v, x # r) # fs \<and> (\<forall>e\<in>set es. snd e = [])
       \<and> rest = r @ concat (map snd fs)"
proof (induction frames)
  case Nil
  then show ?case by simp
next
  case (Cons fr frames)
  show ?case
  proof (cases "snd fr")
    case Nil
    with Cons.prems have "concat (map snd frames) = x # rest" by simp
    from Cons.IH[OF this] obtain es v r fs where
      "frames = es @ (v, x # r) # fs" "\<forall>e\<in>set es. snd e = []" "rest = r @ concat (map snd fs)"
      by blast
    with Nil show ?thesis
      by (intro exI[of _ "fr # es"] exI[of _ v] exI[of _ r] exI[of _ fs]) simp
  next
    case (Cons y r)
    with Cons.prems have "y = x" "rest = r @ concat (map snd frames)" by simp_all
    with Cons have "fr = (fst fr, x # r)" by (cases fr) simp
    with \<open>rest = r @ concat (map snd frames)\<close> show ?thesis
      by (intro exI[of _ "[]"] exI[of _ "fst fr"] exI[of _ r] exI[of _ frames]) simp
  qed
qed

lemma dfs_order_single: "dfs_order E [v]"
  unfolding dfs_order_def by (auto simp: Cons_eq_append_conv)

lemma nb_least_unvisited:
  assumes ok: "nb_ok V nb" and v: "v \<in> V" and nb: "nb v = pre @ x # r"
    and pre: "set pre \<subseteq> A" and x: "x \<notin> A"
  shows "{u. (v, u) \<in> nb_rel V nb \<and> u \<notin> A} \<noteq> {}"
    and "x = Min {u. (v, u) \<in> nb_rel V nb \<and> u \<notin> A}"
proof -
  define U where "U = {u. (v, u) \<in> nb_rel V nb \<and> u \<notin> A}"
  from v have UU: "U = {u. u \<in> set (nb v) \<and> u \<notin> A}" by (simp add: U_def nb_rel_def)
  from ok v have "sorted (nb v)" by (simp add: nb_ok_def)
  with nb have le: "\<And>u. u \<in> set r \<Longrightarrow> x \<le> u" by (auto simp: sorted_append)
  have fin: "finite U" unfolding UU by simp
  have xU: "x \<in> U" using x nb by (simp add: UU)
  have "\<And>u. u \<in> U \<Longrightarrow> x \<le> u"
  proof -
    fix u assume "u \<in> U"
    then have "u \<in> set (pre @ x # r)" "u \<notin> A" using nb by (auto simp: UU)
    with pre have "u = x \<or> u \<in> set r" by auto
    with le show "x \<le> u" by auto
  qed
  with fin xU have "Min U = x" by (intro Min_eqI) auto
  then show "x = Min {u. (v, u) \<in> nb_rel V nb \<and> u \<notin> A}" by (simp add: U_def)
  from xU show "{u. (v, u) \<in> nb_rel V nb \<and> u \<notin> A} \<noteq> {}" by (auto simp: U_def)
qed

lemma nb_none_unvisited:
  assumes "w \<in> V" and "set (nb w) \<subseteq> A"
  shows "{u. (w, u) \<in> nb_rel V nb \<and> u \<notin> A} = {}"
  using assms by (auto simp: nb_rel_def)

lemma dfs_order_snoc:
  assumes ord: "dfs_order (nb_rel V nb) visited" and ne: "visited \<noteq> []"
    and fr: "map fst frames = rev visited" and sp: "frames = es @ (v, x # r) # fs"
    and em: "\<forall>e\<in>set es. snd e = []"
    and pres: "\<forall>fr\<in>set frames. \<exists>pre. nb (fst fr) = pre @ snd fr \<and> set pre \<subseteq> set visited"
    and nv: "x \<notin> set visited" and vis: "set visited \<subseteq> V" and ok: "nb_ok V nb"
  shows "dfs_order (nb_rel V nb) (visited @ [x])"
  unfolding dfs_order_def
proof (intro allI impI)
  fix ys x' zs
  assume a: "visited @ [x] = ys @ x' # zs \<and> ys \<noteq> []"
  show "\<exists>before v after. ys = before @ v # after
           \<and> {u. (v, u) \<in> nb_rel V nb \<and> u \<notin> set ys} \<noteq> {}
           \<and> x' = Min {u. (v, u) \<in> nb_rel V nb \<and> u \<notin> set ys}
           \<and> (\<forall>w\<in>set after. {u. (w, u) \<in> nb_rel V nb \<and> u \<notin> set ys} = {})"
  proof (cases zs rule: rev_cases)
    case Nil
    with a have ys: "ys = visited" and x': "x' = x" by simp_all
    from fr sp have "rev visited = map fst es @ v # map fst fs" by simp
    then have "rev (rev visited) = rev (map fst es @ v # map fst fs)" by simp
    then have dec: "visited = rev (map fst fs) @ v # rev (map fst es)" by simp
    then have vV: "v \<in> V" using vis by auto
    have P: "\<And>e. e \<in> set frames \<Longrightarrow> \<exists>pre. nb (fst e) = pre @ snd e \<and> set pre \<subseteq> set visited"
      using pres by blast
    from P[of "(v, x # r)"] sp obtain pre0 where pre0: "nb v = pre0 @ x # r" "set pre0 \<subseteq> set visited"
      by auto
    note pre = pre0
    note least = nb_least_unvisited[OF ok vV pre nv]
    have none: "{u. (w, u) \<in> nb_rel V nb \<and> u \<notin> set visited} = {}"
      if "w \<in> set (rev (map fst es))" for w
    proof -
      from that obtain e where e: "e \<in> set es" "w = fst e" by auto
      with em have "snd e = []" by simp
      moreover from e sp have "e \<in> set frames" by simp
      ultimately have "set (nb w) \<subseteq> set visited" using P[of e] e(2) by auto
      moreover from that dec vis have "w \<in> V" by auto
      ultimately show ?thesis by (rule nb_none_unvisited[rotated])
    qed
    show ?thesis unfolding ys x'
      by (intro exI[of _ "rev (map fst fs)"] exI[of _ v] exI[of _ "rev (map fst es)"])
        (use dec least none in blast)
  next
    case (snoc zs' z)
    with a have "visited = ys @ x' # zs'" by simp
    with ord a show ?thesis unfolding dfs_order_def by blast
  qed
qed

lemma dfs_inv_init: "s \<in> V \<Longrightarrow> dfs_inv V nb s [] [s]"
  by (simp add: dfs_inv_def work_inv_init dfs_order_def dfs_frames_def)

lemma dfs_inv_new:
  assumes "dfs_inv V nb s visited (stack1 @ [x])" and nv: "x \<notin> set visited" and ok: "nb_ok V nb"
  shows "dfs_inv V nb s (visited @ [x]) (stack1 @ rev (nb x))"
proof -
  from assms(1) have w: "work_inv V nb s visited (stack1 @ [x])"
    and ord: "dfs_order (nb_rel V nb) visited" and frm: "dfs_frames nb s visited (stack1 @ [x])"
    by (simp_all add: dfs_inv_def)
  from w have vis: "set visited \<subseteq> V" by (simp add: work_inv_def)
  have w1: "work_inv V nb s (visited @ [x]) (stack1 @ rev (nb x))"
    by (rule work_inv_new[OF w _ nv _ _ _ ok, of stack1]) auto
  show ?thesis
  proof (cases "visited = []")
    case True
    with frm have "stack1 @ [x] = [s]" by (simp add: dfs_frames_def)
    then have xs: "x = s" "stack1 = []" by simp_all
    have "dfs_frames nb s [s] (rev (nb s))"
      unfolding dfs_frames_def by (simp, intro exI[of _ "[(s, nb s)]"]) simp
    with w1 True xs show ?thesis by (simp add: dfs_inv_def dfs_order_single)
  next
    case False
    with frm obtain frames where hd: "hd visited = s" and fr: "map fst frames = rev visited"
      and st: "rev (stack1 @ [x]) = concat (map snd frames)"
      and pres: "\<forall>fr\<in>set frames. \<exists>pre. nb (fst fr) = pre @ snd fr \<and> set pre \<subseteq> set visited"
      by (auto simp: dfs_frames_def)
    from st have "concat (map snd frames) = x # rev stack1" by simp
    from concat_snd_split[OF this] obtain es v r fs where
      sp: "frames = es @ (v, x # r) # fs" and em: "\<forall>e\<in>set es. snd e = []"
      and rest: "rev stack1 = r @ concat (map snd fs)" by blast
    have o1: "dfs_order (nb_rel V nb) (visited @ [x])"
      by (rule dfs_order_snoc[OF ord False fr sp em pres nv vis ok])
    define frames' where "frames' = (x, nb x) # es @ (v, r) # fs"
    from em have ce: "concat (map snd es) = []" by (induction es) auto
    have f1: "map fst frames' = rev (visited @ [x])" using fr sp by (simp add: frames'_def)
    have f2: "rev (stack1 @ rev (nb x)) = concat (map snd frames')"
      using rest ce by (simp add: frames'_def)
    have P: "\<And>e. e \<in> set frames \<Longrightarrow> \<exists>pre. nb (fst e) = pre @ snd e \<and> set pre \<subseteq> set visited"
      using pres by blast
    from P[of "(v, x # r)"] sp obtain pre0 where pre0: "nb v = pre0 @ x # r" "set pre0 \<subseteq> set visited"
      by auto
    have f3: "\<forall>fr\<in>set frames'. \<exists>pre. nb (fst fr) = pre @ snd fr \<and> set pre \<subseteq> set (visited @ [x])"
    proof
      fix e assume "e \<in> set frames'"
      then consider "e = (x, nb x)" | "e \<in> set es" | "e = (v, r)" | "e \<in> set fs"
        by (auto simp: frames'_def)
      then show "\<exists>pre. nb (fst e) = pre @ snd e \<and> set pre \<subseteq> set (visited @ [x])"
      proof cases
        case 1
        then show ?thesis by simp
      next
        case 2
        with P[of e] sp obtain pre where "nb (fst e) = pre @ snd e" "set pre \<subseteq> set visited" by auto
        then show ?thesis by auto
      next
        case 3
        with pre0 show ?thesis by (intro exI[of _ "pre0 @ [x]"]) auto
      next
        case 4
        with P[of e] sp obtain pre where "nb (fst e) = pre @ snd e" "set pre \<subseteq> set visited" by auto
        then show ?thesis by auto
      qed
    qed
    have "hd (visited @ [x]) = s" using hd False by simp
    with f1 f2 f3 have "dfs_frames nb s (visited @ [x]) (stack1 @ rev (nb x))"
      unfolding dfs_frames_def by (simp del: rev_append) blast
    with w1 o1 show ?thesis by (simp add: dfs_inv_def)
  qed
qed

lemma dfs_inv_old:
  assumes "dfs_inv V nb s visited (stack1 @ [x])" and xv: "x \<in> set visited"
  shows "dfs_inv V nb s visited stack1"
proof -
  from assms(1) have w: "work_inv V nb s visited (stack1 @ [x])"
    and ord: "dfs_order (nb_rel V nb) visited" and frm: "dfs_frames nb s visited (stack1 @ [x])"
    by (simp_all add: dfs_inv_def)
  have w1: "work_inv V nb s visited stack1"
    by (rule work_inv_old[OF w]) (use xv in auto)
  from xv have ne: "visited \<noteq> []" by auto
  with frm obtain frames where hd: "hd visited = s" and fr: "map fst frames = rev visited"
    and st: "rev (stack1 @ [x]) = concat (map snd frames)"
    and pres: "\<forall>fr\<in>set frames. \<exists>pre. nb (fst fr) = pre @ snd fr \<and> set pre \<subseteq> set visited"
    by (auto simp: dfs_frames_def)
  from st have "concat (map snd frames) = x # rev stack1" by simp
  from concat_snd_split[OF this] obtain es v r fs where
    sp: "frames = es @ (v, x # r) # fs" and em: "\<forall>e\<in>set es. snd e = []"
    and rest: "rev stack1 = r @ concat (map snd fs)" by blast
  define frames' where "frames' = es @ (v, r) # fs"
  from em have ce: "concat (map snd es) = []" by (induction es) auto
  have f1: "map fst frames' = rev visited" using fr sp by (simp add: frames'_def)
  have f2: "rev stack1 = concat (map snd frames')" using rest ce by (simp add: frames'_def)
  have P: "\<And>e. e \<in> set frames \<Longrightarrow> \<exists>pre. nb (fst e) = pre @ snd e \<and> set pre \<subseteq> set visited"
    using pres by blast
  from P[of "(v, x # r)"] sp obtain pre0 where pre0: "nb v = pre0 @ x # r" "set pre0 \<subseteq> set visited"
    by auto
  have f3: "\<forall>fr\<in>set frames'. \<exists>pre. nb (fst fr) = pre @ snd fr \<and> set pre \<subseteq> set visited"
  proof
    fix e assume "e \<in> set frames'"
    then consider "e \<in> set es" | "e = (v, r)" | "e \<in> set fs" by (auto simp: frames'_def)
    then show "\<exists>pre. nb (fst e) = pre @ snd e \<and> set pre \<subseteq> set visited"
    proof cases
      case 1
      with P[of e] sp show ?thesis by auto
    next
      case 2
      with pre0 xv show ?thesis by (intro exI[of _ "pre0 @ [x]"]) auto
    next
      case 3
      with P[of e] sp show ?thesis by auto
    qed
  qed
  from ne hd f1 f2 f3 have "dfs_frames nb s visited stack1"
    unfolding dfs_frames_def by auto
  with w1 ord show ?thesis by (simp add: dfs_inv_def)
qed

lemma dfs_inv_final:
  assumes "dfs_inv V nb s vs []"
  shows "distinct vs \<and> set vs = {v. (s, v) \<in> (nb_rel V nb)\<^sup>*} \<and> dfs_order (nb_rel V nb) vs"
    and "hd vs = s"
proof -
  from assms work_inv_final[of V nb s vs]
  show "distinct vs \<and> set vs = {v. (s, v) \<in> (nb_rel V nb)\<^sup>*} \<and> dfs_order (nb_rel V nb) vs"
    by (simp add: dfs_inv_def)
  from assms have "dfs_frames nb s vs []" by (simp add: dfs_inv_def)
  then show "hd vs = s" by (cases "vs = []") (simp_all add: dfs_frames_def)
qed

lemma last_with_unique:
  assumes "b1 @ v1 # a1 = b2 @ v2 # a2" and "P v1" and "P v2"
    and "\<forall>w\<in>set a1. \<not> P w" and "\<forall>w\<in>set a2. \<not> P w"
  shows "v1 = v2"
proof -
  from assms(1) obtain us where
    "(b1 = b2 @ us \<and> us @ v1 # a1 = v2 # a2) \<or> (b1 @ us = b2 \<and> v1 # a1 = us @ v2 # a2)"
    by (auto simp: append_eq_append_conv2)
  then show ?thesis
  proof
    assume a: "b1 = b2 @ us \<and> us @ v1 # a1 = v2 # a2"
    show ?thesis
    proof (cases us)
      case Nil
      with a show ?thesis by simp
    next
      case (Cons u us')
      with a have "v1 \<in> set a2" by auto
      with assms(2,5) show ?thesis by blast
    qed
  next
    assume a: "b1 @ us = b2 \<and> v1 # a1 = us @ v2 # a2"
    show ?thesis
    proof (cases us)
      case Nil
      with a show ?thesis by simp
    next
      case (Cons u us')
      with a have "v2 \<in> set a1" by auto
      with assms(3,4) show ?thesis by blast
    qed
  qed
qed

lemma dfs_order_butlast: "dfs_order E (vs @ [x]) \<Longrightarrow> dfs_order E vs"
  unfolding dfs_order_def
proof (intro allI impI)
  fix ys y zs
  assume a: "\<forall>ys xa zs. vs @ [x] = ys @ xa # zs \<and> ys \<noteq> [] \<longrightarrow>
       (\<exists>before v after. ys = before @ v # after
           \<and> {u. (v, u) \<in> E \<and> u \<notin> set ys} \<noteq> {}
           \<and> xa = Min {u. (v, u) \<in> E \<and> u \<notin> set ys}
           \<and> (\<forall>w\<in>set after. {u. (w, u) \<in> E \<and> u \<notin> set ys} = {}))"
    and b: "vs = ys @ y # zs \<and> ys \<noteq> []"
  from b have "vs @ [x] = ys @ y # (zs @ [x]) \<and> ys \<noteq> []" by simp
  with a show "\<exists>before v after. ys = before @ v # after
           \<and> {u. (v, u) \<in> E \<and> u \<notin> set ys} \<noteq> {}
           \<and> y = Min {u. (v, u) \<in> E \<and> u \<notin> set ys}
           \<and> (\<forall>w\<in>set after. {u. (w, u) \<in> E \<and> u \<notin> set ys} = {})"
    by blast
qed

lemma dfs_order_next:
  assumes "dfs_order E (ys @ [x])" and "dfs_order E (ys @ [y])" and "ys \<noteq> []"
  shows "x = y"
proof -
  define P where "P = (\<lambda>v. {u. (v, u) \<in> E \<and> u \<notin> set ys} \<noteq> {})"
  from assms(1,3) have "\<exists>before v after. ys = before @ v # after \<and> P v
      \<and> x = Min {u. (v, u) \<in> E \<and> u \<notin> set ys} \<and> (\<forall>w\<in>set after. \<not> P w)"
    unfolding dfs_order_def P_def by simp
  then obtain b1 v1 a1 where 1: "ys = b1 @ v1 # a1" "P v1"
    "x = Min {u. (v1, u) \<in> E \<and> u \<notin> set ys}" "\<forall>w\<in>set a1. \<not> P w" by blast
  from assms(2,3) have "\<exists>before v after. ys = before @ v # after \<and> P v
      \<and> y = Min {u. (v, u) \<in> E \<and> u \<notin> set ys} \<and> (\<forall>w\<in>set after. \<not> P w)"
    unfolding dfs_order_def P_def by simp
  then obtain b2 v2 a2 where 2: "ys = b2 @ v2 # a2" "P v2"
    "y = Min {u. (v2, u) \<in> E \<and> u \<notin> set ys}" "\<forall>w\<in>set a2. \<not> P w" by blast
  from 1(1) 2(1) have "b1 @ v1 # a1 = b2 @ v2 # a2" by simp
  from last_with_unique[of b1 v1 a1 b2 v2 a2 P, OF this 1(2) 2(2) 1(4) 2(4)]
  have "v1 = v2" .
  with 1(3) 2(3) show ?thesis by simp
qed

lemma dfs_order_same_length:
  "dfs_order E vs \<Longrightarrow> dfs_order E ws \<Longrightarrow> length ws = length vs \<Longrightarrow> hd ws = hd vs
   \<Longrightarrow> ws = vs"
proof (induction vs arbitrary: ws rule: rev_induct)
  case Nil
  then show ?case by simp
next
  case (snoc x vs)
  from snoc.prems(3) obtain ws' y where ws: "ws = ws' @ [y]"
    by (cases ws rule: rev_cases) auto
  with snoc.prems(3) have len: "length ws' = length vs" by simp
  show ?case
  proof (cases "vs = []")
    case True
    with len have "ws' = []" by simp
    with True snoc.prems(4) ws show ?thesis by simp
  next
    case False
    with len have ne: "ws' \<noteq> []" by auto
    from snoc.prems(4) ws False ne have hd: "hd ws' = hd vs" by simp
    from snoc.prems(1) have o1: "dfs_order E vs" by (rule dfs_order_butlast)
    from snoc.prems(2) ws have o2: "dfs_order E ws'" by (auto intro: dfs_order_butlast)
    from snoc.IH[OF o1 o2 len hd] have eq: "ws' = vs" .
    from snoc.prems(2) ws eq have "dfs_order E (vs @ [y])" by simp
    from dfs_order_next[OF snoc.prems(1) this False] eq ws show ?thesis by simp
  qed
qed

lemma dfs_order_unique:
  assumes "dfs_order E vs" and "distinct vs" and "dfs_order E ws" and "distinct ws"
    and "set ws = set vs" and "hd ws = hd vs"
  shows "ws = vs"
proof -
  from assms(2,4,5) have "length ws = length vs" by (metis distinct_card)
  from dfs_order_same_length[OF assms(1,3) this assms(6)] show ?thesis .
qed

lemma bfs_inv_init: "s \<in> V \<Longrightarrow> bfs_inv V nb s [] [s]"
  unfolding bfs_inv_def by (simp add: work_inv_init firsts_def) 

lemma bfs_inv_new:
  assumes "bfs_inv V nb s visited (v # queue1)" and "v \<notin> set visited" and "nb_ok V nb"
  shows "bfs_inv V nb s (visited @ [v]) (queue1 @ nb v)"
proof -
  from assms(1) obtain dn where w: "work_inv V nb s visited (v # queue1)"
    and dn: "dn @ v # queue1 = s # concat (map nb visited)" and f: "visited = firsts dn"
    by (auto simp: bfs_inv_def)
  have "work_inv V nb s (visited @ [v]) (queue1 @ nb v)"
    by (rule work_inv_new[OF w _ assms(2) _ _ _ assms(3), of queue1]) auto
  moreover have "(dn @ [v]) @ queue1 @ nb v = s # concat (map nb (visited @ [v]))"
    using dn by simp
  moreover have "visited @ [v] = firsts (dn @ [v])"
    using f assms(2) by (simp add: firsts_snoc set_firsts)
  ultimately show ?thesis unfolding bfs_inv_def by blast
qed

lemma bfs_inv_old:
  assumes "bfs_inv V nb s visited (v # queue1)" and "v \<in> set visited"
  shows "bfs_inv V nb s visited queue1"
proof -
  from assms(1) obtain dn where w: "work_inv V nb s visited (v # queue1)"
    and dn: "dn @ v # queue1 = s # concat (map nb visited)" and f: "visited = firsts dn"
    by (auto simp: bfs_inv_def)
  have "work_inv V nb s visited queue1"
    by (rule work_inv_old[OF w]) (use assms(2) in auto)
  moreover have "(dn @ [v]) @ queue1 = s # concat (map nb visited)" using dn by simp
  moreover have "visited = firsts (dn @ [v])"
    using f assms(2) by (simp add: firsts_snoc set_firsts)
  ultimately show ?thesis unfolding bfs_inv_def by blast
qed

lemma bfs_inv_final:
  assumes "bfs_inv V nb s vs []"
  shows "distinct vs \<and> set vs = {v. (s, v) \<in> (nb_rel V nb)\<^sup>*}
           \<and> vs = firsts (s # concat (map nb vs))"
  using assms work_inv_final[of V nb s vs] by (auto simp: bfs_inv_def)

section \<open>The traversal loops of the directed graph\<close>

lemma d_adjacent_eq:
  "d_adjacent row c t = t @ map (\<lambda>j. c + int j) (filter (\<lambda>j. row ! j \<noteq> 0) [0..<length row])"
proof (induction row arbitrary: c t)
  case Nil
  show ?case by simp
next
  case (Cons u row)
  have upt: "[0..<length (u # row)] = 0 # map Suc [0..<length row]"
    by (simp add: upt_conv_Cons map_Suc_upt del: upt_Suc)
  show ?case unfolding upt
    by (simp add: Cons.IH filter_map comp_def del: upt_Suc)
qed

lemma d_adjacent_sorted: "sorted (d_adjacent row 0 []) \<and> distinct (d_adjacent row 0 [])"
proof -
  have "sorted (map int [0..<length row])" by (simp add: sorted_map)
  then have "sorted (map int (filter (\<lambda>j. row ! j \<noteq> 0) [0..<length row]))"
    by (rule sorted_filter)
  moreover have "distinct (map int (filter (\<lambda>j. row ! j \<noteq> 0) [0..<length row]))"
    by (simp add: distinct_map)
  ultimately show ?thesis by (simp add: d_adjacent_eq)
qed

lemma d_adjacent_set:
  "set (d_adjacent row 0 []) = {j. 0 \<le> j \<and> j < int (length row) \<and> row ! nat j \<noteq> 0}"
proof -
  have "set (d_adjacent row 0 []) = int ` {j. j < length row \<and> row ! j \<noteq> 0}"
    by (auto simp: d_adjacent_eq)
  also have "\<dots> = {j. 0 \<le> j \<and> j < int (length row) \<and> row ! nat j \<noteq> 0}"
  proof (intro set_eqI iffI)
    fix j assume "j \<in> int ` {j. j < length row \<and> row ! j \<noteq> 0}"
    then show "j \<in> {j. 0 \<le> j \<and> j < int (length row) \<and> row ! nat j \<noteq> 0}" by auto
  next
    fix j assume "j \<in> {j. 0 \<le> j \<and> j < int (length row) \<and> row ! nat j \<noteq> 0}"
    then have "nat j < length row" "row ! nat j \<noteq> 0" "j = int (nat j)" by auto
    then show "j \<in> int ` {j. j < length row \<and> row ! j \<noteq> 0}" by blast
  qed
  finally show ?thesis .
qed

lemma d_nb_eq: "d_nb g v = d_adjacent (adj_matrix g ! nat v) 0 []"
  by (simp add: d_nb_def d_adjacent_sorted sorted_sort_id)

lemma d_row:
  assumes "d_square g" and "v \<in> d_vertices g"
  shows "py_get (adj_matrix g) v = Inr (adj_matrix g ! nat v)"
    and "length (adj_matrix g ! nat v) = v_count g"
proof -
  from assms have "0 \<le> v" "nat v < length (adj_matrix g)" "length (adj_matrix g) = v_count g"
    by (auto simp: d_square_def d_vertices_def)
  then show "py_get (adj_matrix g) v = Inr (adj_matrix g ! nat v)"
    by (simp add: py_get_def py_valid_def py_norm_def)
  from assms \<open>nat v < length (adj_matrix g)\<close> show "length (adj_matrix g ! nat v) = v_count g"
    by (simp add: d_square_def list_all_length)
qed

lemma d_nb_set:
  assumes "d_square g" and "v \<in> d_vertices g"
  shows "set (d_nb g v) = {u. (v, u) \<in> d_edge g}"
  using assms by (auto simp: d_nb_eq d_adjacent_set d_row(2) d_edge_def d_vertices_def)

lemma d_nb_ok: "d_square g \<Longrightarrow> nb_ok (d_vertices g) (d_nb g)"
  unfolding nb_ok_def
proof (intro ballI conjI)
  fix v assume g: "d_square g" and v: "v \<in> d_vertices g"
  show "sorted (d_nb g v)" by (simp add: d_nb_eq d_adjacent_sorted)
  show "distinct (d_nb g v)" by (simp add: d_nb_eq d_adjacent_sorted)
  show "set (d_nb g v) \<subseteq> d_vertices g"
    unfolding d_nb_set[OF g v] by (auto simp: d_edge_def)
qed

lemma d_nb_rel: "d_square g \<Longrightarrow> nb_rel (d_vertices g) (d_nb g) = d_edge g"
proof -
  assume g: "d_square g"
  have "(v, u) \<in> nb_rel (d_vertices g) (d_nb g) \<longleftrightarrow> (v, u) \<in> d_edge g" for v u
  proof (cases "v \<in> d_vertices g")
    case True
    then show ?thesis using d_nb_set[OF g True] by (simp add: nb_rel_def)
  next
    case False
    then show ?thesis by (simp add: nb_rel_def d_edge_def)
  qed
  then show ?thesis by auto
qed

lemma d_dfs_loop_correct:
  assumes g: "d_square g" and inv: "dfs_inv (d_vertices g) (d_nb g) s visited stack"
  shows "\<exists>vs. d_dfs_loop (adj_matrix g) None visited stack = Inr vs
             \<and> dfs_inv (d_vertices g) (d_nb g) s vs []"
  using inv
proof (induction "adj_matrix g" "None :: int option" visited stack rule: d_dfs_loop.induct)
  case (1 visited stack)
  show ?case
  proof (cases "stack = []")
    case True
    with "1.prems" show ?thesis by (simp add: d_dfs_loop.simps)
  next
    case False
    define v where "v = last stack"
    define stack1 where "stack1 = butlast stack"
    have st: "stack = stack1 @ [v]" using False by (simp add: v_def stack1_def)
    have sn: "Some v \<noteq> (None :: int option)" by simp
    from "1.prems" have vV: "v \<in> d_vertices g" by (auto simp: st dfs_inv_def work_inv_def)
    note row = d_row(1)[OF g vV]
    have e: "d_nb g v = sort (d_adjacent (adj_matrix g ! nat v) 0 [])" by (simp add: d_nb_def)
    show ?thesis
    proof (cases "v \<in> set visited")
      case True
      then have nn: "\<not> v \<notin> set visited" by simp
      have "dfs_inv (d_vertices g) (d_nb g) s visited stack1"
        using "1.prems" True unfolding st by (rule dfs_inv_old)
      from "1.hyps"(2)[OF False v_def stack1_def nn sn this]
      show ?thesis using True False
        by (subst d_dfs_loop.simps) (simp add: v_def[symmetric] stack1_def[symmetric])
    next
      case nv: False
      have "dfs_inv (d_vertices g) (d_nb g) s (visited @ [v]) (stack1 @ rev (d_nb g v))"
        using "1.prems" nv d_nb_ok[OF g] unfolding st by (rule dfs_inv_new)
      from "1.hyps"(1)[OF False v_def stack1_def nv row refl refl refl sn this[unfolded e]]
      show ?thesis using nv False row
        by (subst d_dfs_loop.simps) (simp add: v_def[symmetric] stack1_def[symmetric])
    qed
  qed
qed

lemma d_bfs_loop_correct:
  assumes g: "d_square g" and inv: "bfs_inv (d_vertices g) (d_nb g) s visited queue"
  shows "\<exists>vs. d_bfs_loop (adj_matrix g) None visited queue = Inr vs
             \<and> bfs_inv (d_vertices g) (d_nb g) s vs []"
  using inv
proof (induction "adj_matrix g" "None :: int option" visited queue rule: d_bfs_loop.induct)
  case (1 visited queue)
  show ?case
  proof (cases "queue = []")
    case True
    with "1.prems" show ?thesis by (simp add: d_bfs_loop.simps)
  next
    case False
    define v where "v = hd queue"
    define queue1 where "queue1 = tl queue"
    have st: "queue = v # queue1" using False by (simp add: v_def queue1_def)
    have sn: "Some v \<noteq> (None :: int option)" by simp
    from "1.prems" have vV: "v \<in> d_vertices g" by (auto simp: st bfs_inv_def work_inv_def)
    note row = d_row(1)[OF g vV]
    have e: "d_nb g v = sort (d_adjacent (adj_matrix g ! nat v) 0 [])" by (simp add: d_nb_def)
    show ?thesis
    proof (cases "v \<in> set visited")
      case True
      then have nn: "\<not> v \<notin> set visited" by simp
      have "bfs_inv (d_vertices g) (d_nb g) s visited queue1"
        using "1.prems" True unfolding st by (rule bfs_inv_old)
      from "1.hyps"(2)[OF False v_def queue1_def nn sn this]
      show ?thesis using True False
        by (subst d_bfs_loop.simps) (simp add: v_def[symmetric] queue1_def[symmetric])
    next
      case nv: False
      have "bfs_inv (d_vertices g) (d_nb g) s (visited @ [v]) (queue1 @ d_nb g v)"
        using "1.prems" nv d_nb_ok[OF g] unfolding st by (rule bfs_inv_new)
      from "1.hyps"(1)[OF False v_def queue1_def nv row refl refl refl sn this[unfolded e]]
      show ?thesis using nv False row
        by (subst d_bfs_loop.simps) (simp add: v_def[symmetric] queue1_def[symmetric])
    qed
  qed
qed

section \<open>The traversal loops of the undirected graph, and the four traversals\<close>

lemma nb_sorted_list:
  assumes "nb_ok V nb" and "v \<in> V"
  shows "nb v = sorted_list_of_set {u. (v, u) \<in> nb_rel V nb}"
proof -
  from assms have "sorted (nb v)" "distinct (nb v)" by (simp_all add: nb_ok_def)
  then have "sorted_list_of_set (set (nb v)) = nb v"
    by (rule sorted_list_of_set.idem_if_sorted_distinct)
  moreover have "{u. (v, u) \<in> nb_rel V nb} = set (nb v)" using assms(2) by (simp add: nb_rel_def)
  ultimately show ?thesis by simp
qed

lemma bfs_inv_order:
  assumes "bfs_inv V nb s vs []" and "nb_ok V nb"
  shows "bfs_order (nb_rel V nb) s vs"
proof -
  from assms(1) have sub: "set vs \<subseteq> V" by (simp add: bfs_inv_def work_inv_def)
  have "map nb vs = map (\<lambda>v. sorted_list_of_set {u. (v, u) \<in> nb_rel V nb}) vs"
    using sub nb_sorted_list[OF assms(2)] by (intro map_cong) auto
  with bfs_inv_final[OF assms(1)] show ?thesis unfolding bfs_order_def by simp
qed

lemma ud_lookup_key: "v \<in> fst ` set g \<Longrightarrow> ud_lookup g v = Inr (ud_adj g v)"
  by (cases "map_of g v") (simp_all add: ud_lookup_def ud_adj_def map_of_eq_None_iff)

lemma ud_nb_ok: "ud_inv g \<Longrightarrow> nb_ok (fst ` set g) (ud_nb g)"
  unfolding nb_ok_def
proof (intro ballI conjI)
  fix v assume g: "ud_inv g" and v: "v \<in> fst ` set g"
  show "sorted (ud_nb g v)" by (simp add: ud_nb_def)
  show "distinct (ud_nb g v)" using g by (simp add: ud_nb_def ud_inv_def)
  show "set (ud_nb g v) \<subseteq> fst ` set g"
  proof
    fix u assume "u \<in> set (ud_nb g v)"
    then have "u \<in> set (ud_adj g v)" by (simp add: ud_nb_def)
    with g have "v \<in> set (ud_adj g u)" by (simp add: ud_inv_def)
    then show "u \<in> fst ` set g" by (rule ud_adj_key)
  qed
qed

lemma ud_nb_rel: "nb_rel (fst ` set g) (ud_nb g) = ud_edge g"
proof -
  have "(v, u) \<in> nb_rel (fst ` set g) (ud_nb g) \<longleftrightarrow> (v, u) \<in> ud_edge g" for v u
  proof (cases "v \<in> fst ` set g")
    case True
    then show ?thesis by (simp add: nb_rel_def ud_edge_def ud_nb_def)
  next
    case False
    then show ?thesis by (simp add: nb_rel_def ud_edge_def ud_adj_not_key)
  qed
  then show ?thesis by auto
qed

lemma ud_dfs_loop_correct:
  assumes g: "ud_inv g" and inv: "dfs_inv (fst ` set g) (ud_nb g) s visited stack"
  shows "\<exists>vs. ud_dfs_loop g None visited stack = Inr vs
             \<and> dfs_inv (fst ` set g) (ud_nb g) s vs []"
  using g inv
proof (induction g "None :: string option" visited stack rule: ud_dfs_loop.induct)
  case (1 g visited stack)
  show ?case
  proof (cases "stack = []")
    case True
    with "1.prems" show ?thesis by (simp add: ud_dfs_loop.simps)
  next
    case False
    define v where "v = last stack"
    define stack1 where "stack1 = butlast stack"
    have st: "stack = stack1 @ [v]" using False by (simp add: v_def stack1_def)
    have sn: "Some v \<noteq> (None :: string option)" by simp
    from "1.prems" have vV: "v \<in> fst ` set g" by (auto simp: st dfs_inv_def work_inv_def)
    note row = ud_lookup_key[OF vV]
    have e: "ud_nb g v = sort (ud_adj g v)" by (simp add: ud_nb_def)
    show ?thesis
    proof (cases "v \<in> set visited")
      case True
      then have nn: "\<not> v \<notin> set visited" by simp
      have "dfs_inv (fst ` set g) (ud_nb g) s visited stack1"
        using "1.prems"(2) True unfolding st by (rule dfs_inv_old)
      from "1.hyps"(2)[OF False v_def stack1_def nn sn "1.prems"(1) this]
      show ?thesis using True False
        by (subst ud_dfs_loop.simps) (simp add: v_def[symmetric] stack1_def[symmetric])
    next
      case nv: False
      have "dfs_inv (fst ` set g) (ud_nb g) s (visited @ [v]) (stack1 @ rev (ud_nb g v))"
        using "1.prems"(2) nv ud_nb_ok[OF "1.prems"(1)] unfolding st by (rule dfs_inv_new)
      from "1.hyps"(1)[OF False v_def stack1_def nv row refl refl refl sn "1.prems"(1) this[unfolded e]]
      show ?thesis using nv False row
        by (subst ud_dfs_loop.simps) (simp add: v_def[symmetric] stack1_def[symmetric])
    qed
  qed
qed

lemma ud_bfs_loop_correct:
  assumes g: "ud_inv g" and inv: "bfs_inv (fst ` set g) (ud_nb g) s visited queue"
  shows "\<exists>vs. ud_bfs_loop g None visited queue = Inr vs
             \<and> bfs_inv (fst ` set g) (ud_nb g) s vs []"
  using g inv
proof (induction g "None :: string option" visited queue rule: ud_bfs_loop.induct)
  case (1 g visited queue)
  show ?case
  proof (cases "queue = []")
    case True
    with "1.prems" show ?thesis by (simp add: ud_bfs_loop.simps)
  next
    case False
    define v where "v = hd queue"
    define queue1 where "queue1 = tl queue"
    have st: "queue = v # queue1" using False by (simp add: v_def queue1_def)
    have sn: "Some v \<noteq> (None :: string option)" by simp
    from "1.prems" have vV: "v \<in> fst ` set g" by (auto simp: st bfs_inv_def work_inv_def)
    note row = ud_lookup_key[OF vV]
    have e: "ud_nb g v = sort (ud_adj g v)" by (simp add: ud_nb_def)
    show ?thesis
    proof (cases "v \<in> set visited")
      case True
      then have nn: "\<not> v \<notin> set visited" by simp
      have "bfs_inv (fst ` set g) (ud_nb g) s visited queue1"
        using "1.prems"(2) True unfolding st by (rule bfs_inv_old)
      from "1.hyps"(2)[OF False v_def queue1_def nn sn "1.prems"(1) this]
      show ?thesis using True False
        by (subst ud_bfs_loop.simps) (simp add: v_def[symmetric] queue1_def[symmetric])
    next
      case nv: False
      have "bfs_inv (fst ` set g) (ud_nb g) s (visited @ [v]) (queue1 @ ud_nb g v)"
        using "1.prems"(2) nv ud_nb_ok[OF "1.prems"(1)] unfolding st by (rule bfs_inv_new)
      from "1.hyps"(1)[OF False v_def queue1_def nv row refl refl refl sn "1.prems"(1) this[unfolded e]]
      show ?thesis using nv False row
        by (subst ud_bfs_loop.simps) (simp add: v_def[symmetric] queue1_def[symmetric])
    qed
  qed
qed

lemma d_dfs_correct:
  assumes g: "d_square g" and s: "s \<in> d_vertices g"
  shows "\<exists>vs. d_dfs g s None = Inr vs \<and> distinct vs \<and> set vs = {v. (s, v) \<in> (d_edge g)\<^sup>*}
            \<and> hd vs = s \<and> dfs_order (d_edge g) vs
            \<and> (\<forall>ws. distinct ws \<and> set ws = set vs \<and> hd ws = s \<and> dfs_order (d_edge g) ws
                  \<longrightarrow> ws = vs)"
proof -
  from g s have guard: "\<not> s > int (length (adj_matrix g))" by (simp add: d_square_def d_vertices_def)
  from d_dfs_loop_correct[OF g dfs_inv_init[OF s]] obtain vs
    where run: "d_dfs_loop (adj_matrix g) None [] [s] = Inr vs"
      and inv: "dfs_inv (d_vertices g) (d_nb g) s vs []"
    by blast
  from dfs_inv_final(1)[OF inv] have fin: "distinct vs" "set vs = {v. (s, v) \<in> (d_edge g)\<^sup>*}"
    "dfs_order (d_edge g) vs" by (simp_all add: d_nb_rel[OF g])
  from dfs_inv_final(2)[OF inv] have hd: "hd vs = s" .
  from run guard have res: "d_dfs g s None = Inr vs" by (simp add: d_dfs_def)
  have "ws = vs" if "distinct ws \<and> set ws = set vs \<and> hd ws = s \<and> dfs_order (d_edge g) ws" for ws
    using dfs_order_unique[OF fin(3) fin(1), of ws] that hd by simp
  with res fin hd show ?thesis by blast
qed

lemma d_bfs_correct:
  assumes g: "d_square g" and s: "s \<in> d_vertices g"
  shows "\<exists>vs. d_bfs g s None = Inr vs \<and> distinct vs \<and> set vs = {v. (s, v) \<in> (d_edge g)\<^sup>*}
            \<and> bfs_order (d_edge g) s vs"
proof -
  from g s have guard: "\<not> s > int (length (adj_matrix g))" by (simp add: d_square_def d_vertices_def)
  from d_bfs_loop_correct[OF g bfs_inv_init[OF s]] obtain vs
    where "d_bfs_loop (adj_matrix g) None [] [s] = Inr vs" "bfs_inv (d_vertices g) (d_nb g) s vs []"
    by blast
  with bfs_inv_final[of "d_vertices g" "d_nb g" s vs] bfs_inv_order[OF _ d_nb_ok[OF g], of s vs]
    guard show ?thesis
    by (simp add: d_bfs_def d_nb_rel[OF g])
qed

lemma ud_dfs_correct:
  assumes g: "ud_inv g" and s: "s \<in> fst ` set g"
  shows "\<exists>vs. ud_dfs g s None = Inr vs \<and> distinct vs \<and> set vs = {v. (s, v) \<in> (ud_edge g)\<^sup>*}
            \<and> hd vs = s \<and> dfs_order (ud_edge g) vs
            \<and> (\<forall>ws. distinct ws \<and> set ws = set vs \<and> hd ws = s \<and> dfs_order (ud_edge g) ws
                  \<longrightarrow> ws = vs)"
proof -
  from ud_dfs_loop_correct[OF g dfs_inv_init[OF s]] obtain vs
    where run: "ud_dfs_loop g None [] [s] = Inr vs"
      and inv: "dfs_inv (fst ` set g) (ud_nb g) s vs []"
    by blast
  from dfs_inv_final(1)[OF inv] have fin: "distinct vs" "set vs = {v. (s, v) \<in> (ud_edge g)\<^sup>*}"
    "dfs_order (ud_edge g) vs" by (simp_all add: ud_nb_rel)
  from dfs_inv_final(2)[OF inv] have hd: "hd vs = s" .
  from run s have res: "ud_dfs g s None = Inr vs" by (simp add: ud_dfs_def)
  have "ws = vs" if "distinct ws \<and> set ws = set vs \<and> hd ws = s \<and> dfs_order (ud_edge g) ws" for ws
    using dfs_order_unique[OF fin(3) fin(1), of ws] that hd by simp
  with res fin hd show ?thesis by blast
qed

lemma ud_bfs_correct:
  assumes g: "ud_inv g" and s: "s \<in> fst ` set g"
  shows "\<exists>vs. ud_bfs g s None = Inr vs \<and> distinct vs \<and> set vs = {v. (s, v) \<in> (ud_edge g)\<^sup>*}
            \<and> bfs_order (ud_edge g) s vs"
proof -
  from ud_bfs_loop_correct[OF g bfs_inv_init[OF s]] obtain vs
    where "ud_bfs_loop g None [] [s] = Inr vs" "bfs_inv (fst ` set g) (ud_nb g) s vs []"
    by blast
  with bfs_inv_final[of "fst ` set g" "ud_nb g" s vs] bfs_inv_order[OF _ ud_nb_ok[OF g], of s vs]
    s show ?thesis
    by (simp add: ud_bfs_def ud_nb_rel)
qed

text \<open>
  The star with the edges \<open>0 \<rightarrow> 1\<close>, \<open>0 \<rightarrow> 2\<close>, \<open>0 \<rightarrow> 3\<close>: dfs from 0 returns
  \<open>[0, 1, 2, 3]\<close>. The list \<open>[0, 1, 3, 2]\<close>, which takes the remaining neighbours of the
  branch point 0 out of order after the dead end 1, is not in depth-first order.
\<close>

lemma d_dfs_star: "d_dfs d_graph_star 0 None = Inr [0, 1, 2, 3]"
  by (simp add: d_dfs_def d_graph_star_def d_dfs_loop.simps py_get_def py_valid_def py_norm_def
      d_adjacent.simps)

lemma d_edge_star: "d_edge d_graph_star = {(0, 1), (0, 2), (0, 3)}"
proof -
  have r: "\<And>v::int. (0 \<le> v \<and> v < 4) = (v = 0 \<or> v = 1 \<or> v = 2 \<or> v = 3)" by arith
  have v: "d_vertices d_graph_star = {0, 1, 2, 3}"
    unfolding d_vertices_def d_graph_star_def by (simp add: r set_eq_iff)
  show ?thesis unfolding d_edge_def v by (auto simp: d_graph_star_def)
qed

lemma dfs_order_star_backtrack: "\<not> dfs_order (d_edge d_graph_star) [0, 1, 3, 2]"
proof
  assume "dfs_order (d_edge d_graph_star) [0, 1, 3, 2]"
  then have "\<exists>before v after. [0, 1] = before @ v # after
      \<and> {u. (v, u) \<in> d_edge d_graph_star \<and> u \<notin> set [0, 1]} \<noteq> {}
      \<and> 3 = Min {u. (v, u) \<in> d_edge d_graph_star \<and> u \<notin> set [0, 1]}
      \<and> (\<forall>w\<in>set after. {u. (w, u) \<in> d_edge d_graph_star \<and> u \<notin> set [0, 1]} = {})"
    unfolding dfs_order_def by (elim allE[of _ "[0, 1]"] allE[of _ 3] allE[of _ "[2]"]) simp
  then obtain before v after where dec: "[0, 1] = before @ v # after"
    and ne: "{u. (v, u) \<in> d_edge d_graph_star \<and> u \<notin> set [0, 1]} \<noteq> {}"
    and mn: "3 = Min {u. (v, u) \<in> d_edge d_graph_star \<and> u \<notin> set [0, 1]}" by blast
  from dec have "v = 0 \<or> v = 1" by (auto simp: Cons_eq_append_conv)
  then show False
  proof
    assume v: "v = 0"
    have "{u. (0, u) \<in> d_edge d_graph_star \<and> u \<notin> set [0, 1]} = {2, 3::int}"
      unfolding d_edge_star by auto
    with mn v show False by simp
  next
    assume v: "v = 1"
    with ne show False unfolding d_edge_star by auto
  qed
qed

section \<open>Lemmas about dijkstra\<close>

lemma d_walk_snoc: "p \<noteq> [] \<Longrightarrow> d_walk g (p @ [u]) = (d_walk g p \<and> (last p, u) \<in> d_edge g)"
proof (induction g p rule: d_walk.induct)
  case (1 g)
  then show ?case by simp
next
  case (2 g v)
  then show ?case by (auto simp: d_edge_def)
next
  case (3 g v u p)
  then show ?case by auto
qed

lemma d_weight_snoc:
  "p \<noteq> [] \<Longrightarrow> d_weight g (p @ [u]) = d_weight g p + adj_matrix g ! nat (last p) ! nat u"
  by (induction g p rule: d_weight.induct) auto

lemma d_walk_vertices: "d_walk g p \<Longrightarrow> set p \<subseteq> d_vertices g"
  by (induction g p rule: d_walk.induct) (auto simp: d_edge_def)

lemma d_entry_nonneg:
  assumes "d_square g" and "d_nonneg g" and "x \<in> d_vertices g" and "y \<in> d_vertices g"
  shows "0 \<le> adj_matrix g ! nat x ! nat y"
proof -
  from assms have x: "nat x < length (adj_matrix g)" by (auto simp: d_square_def d_vertices_def)
  with assms have y: "nat y < length (adj_matrix g ! nat x)"
    by (auto simp: d_square_def d_vertices_def list_all_length)
  from assms(2) x y show ?thesis by (simp add: d_nonneg_def list_all_length)
qed

lemma d_edge_pos:
  assumes "d_square g" and "d_nonneg g" and "(x, y) \<in> d_edge g"
  shows "0 < adj_matrix g ! nat x ! nat y"
proof -
  from assms(3) have "x \<in> d_vertices g" "y \<in> d_vertices g" "adj_matrix g ! nat x ! nat y \<noteq> 0"
    by (simp_all add: d_edge_def)
  with d_entry_nonneg[OF assms(1,2), of x y] show ?thesis by simp
qed

lemma d_weight_nonneg:
  "d_square g \<Longrightarrow> d_nonneg g \<Longrightarrow> d_walk g p \<Longrightarrow> 0 \<le> d_weight g p"
proof (induction g p rule: d_weight.induct)
  case (3 g v u p)
  from "3.prems" have e: "(v, u) \<in> d_edge g" and w: "d_walk g (u # p)" by simp_all
  from d_edge_pos[OF "3.prems"(1,2) e] "3.IH"[OF "3.prems"(1,2) w] show ?case by simp
qed simp_all

lemma d_weight_take:
  "d_square g \<Longrightarrow> d_nonneg g \<Longrightarrow> d_walk g p \<Longrightarrow> d_weight g (take k p) \<le> d_weight g p"
proof (induction g p arbitrary: k rule: d_weight.induct)
  case (1 g)
  then show ?case by simp
next
  case (2 g v)
  then show ?case by (cases k) simp_all
next
  case (3 g v u p)
  from "3.prems" have e: "(v, u) \<in> d_edge g" and w: "d_walk g (u # p)" by simp_all
  note pos = d_edge_pos[OF "3.prems"(1,2) e]
  note nn = d_weight_nonneg[OF "3.prems"(1,2) w]
  show ?case
  proof (cases k)
    case 0
    with pos nn show ?thesis by simp
  next
    case (Suc k1)
    show ?thesis
    proof (cases k1)
      case 0
      with Suc pos nn show ?thesis by simp
    next
      case (Suc k2)
      have "take k (v # u # p) = v # u # take k2 p" using \<open>k = Suc k1\<close> Suc by simp
      moreover have "take (Suc k2) (u # p) = u # take k2 p" by simp
      ultimately show ?thesis using "3.IH"[OF "3.prems"(1,2) w, of "Suc k2"] by simp
    qed
  qed
qed

lemma dijkstra_edges_eq:
  "0 \<le> vi \<Longrightarrow> nat vi + length row \<le> length map' \<Longrightarrow>
   dijkstra_edges row vi di visited map' queue = Inr (queue @ dj_children row vi di visited map')"
proof (induction row arbitrary: vi queue)
  case Nil
  show ?case by simp
next
  case (Cons d row)
  from Cons.prems have g: "py_get map' vi = Inr (map' ! nat vi)"
    by (simp add: py_get_def py_valid_def py_norm_def)
  from Cons.prems have n: "0 \<le> vi + 1" "nat (vi + 1) + length row \<le> length map'" by simp_all
  show ?case using Cons.IH[OF n] g by simp
qed

lemma dj_children_mem:
  "(u, c) \<in> set (dj_children row vi di visited map') \<Longrightarrow>
   \<exists>j<length row. u = vi + int j \<and> row ! j \<noteq> 0 \<and> c = di + row ! j
       \<and> (u \<notin> set visited \<or> dist_less c (map' ! nat u))"
proof (induction row arbitrary: vi)
  case Nil
  then show ?case by simp
next
  case (Cons d row)
  from Cons.prems consider
      (here) "d \<noteq> 0" "vi \<notin> set visited \<or> dist_less (di + d) (map' ! nat vi)" "u = vi" "c = di + d"
    | (later) "(u, c) \<in> set (dj_children row (vi + 1) di visited map')"
    by (auto split: if_splits)
  then show ?case
  proof cases
    case here
    then show ?thesis by (intro exI[of _ 0]) auto
  next
    case later
    from Cons.IH[OF later] obtain j where "j < length row" "u = vi + 1 + int j" "row ! j \<noteq> 0"
      "c = di + row ! j" "u \<notin> set visited \<or> dist_less c (map' ! nat u)" by blast
    then show ?thesis by (intro exI[of _ "Suc j"]) auto
  qed
qed

lemma dj_children_intro:
  "j < length row \<Longrightarrow> row ! j \<noteq> 0 \<Longrightarrow>
   vi + int j \<notin> set visited \<or> dist_less (di + row ! j) (map' ! nat (vi + int j)) \<Longrightarrow>
   (vi + int j, di + row ! j) \<in> set (dj_children row vi di visited map')"
proof (induction row arbitrary: vi j)
  case Nil
  then show ?case by simp
next
  case (Cons d row)
  show ?case
  proof (cases j)
    case 0
    with Cons.prems show ?thesis by auto
  next
    case (Suc j1)
    have eq: "vi + int j = vi + 1 + int j1" by (simp add: Suc)
    from Cons.prems Suc have p: "j1 < length row" "row ! j1 \<noteq> 0" by simp_all
    from Cons.prems(3) have c: "vi + 1 + int j1 \<notin> set visited
        \<or> dist_less (di + row ! j1) (map' ! nat (vi + 1 + int j1))"
      unfolding eq using Suc by simp
    from Cons.IH[OF p c] show ?thesis unfolding eq using Suc by simp
  qed
qed

lemma dj_children_length: "length (dj_children row vi di visited map') \<le> length row"
proof (induction row arbitrary: vi)
  case Nil
  show ?case by simp
next
  case (Cons d row)
  from Cons.IH[of "vi + 1"] show ?case by simp
qed

lemma dj_map1_length: "length (dj_map1 map' v d) = length map'"
  by (simp add: dj_map1_def)

lemma not_dist_less: "\<not> dist_less d x \<Longrightarrow> \<exists>m. x = Fin m \<and> m \<le> d"
  by (cases x) auto

lemma dj_map1_at:
  assumes "0 \<le> v" and "nat v < length map'"
  shows "\<exists>m. dj_map1 map' v d ! nat v = Fin m \<and> m \<le> d"
proof (cases "dist_less d (map' ! nat v)")
  case True
  with assms show ?thesis by (simp add: dj_map1_def)
next
  case False
  with not_dist_less[OF False] show ?thesis by (simp add: dj_map1_def)
qed

lemma dj_map1_decr:
  assumes "map' ! x = Fin m" and "x < length map'"
  shows "\<exists>m'. dj_map1 map' v d ! x = Fin m' \<and> m' \<le> m"
proof (cases "dist_less d (map' ! nat v) \<and> x = nat v")
  case True
  with assms show ?thesis by (simp add: dj_map1_def)
next
  case False
  with assms show ?thesis by (auto simp: dj_map1_def)
qed

lemma dj_map1_cases:
  assumes "x < length map'"
  shows "dj_map1 map' v d ! x = map' ! x
         \<or> (x = nat v \<and> dist_less d (map' ! nat v) \<and> dj_map1 map' v d ! x = Fin d)"
  using assms by (cases "x = nat v") (auto simp: dj_map1_def)

lemma dijkstra_step_eq:
  assumes "d_square g" and "length map' = v_count g" and "v \<in> d_vertices g"
  shows "dijkstra_step (adj_matrix g) map' visited v d queue1 =
           Inr (dj_map1 map' v d, visited @ [v],
                queue1 @ dj_children (adj_matrix g ! nat v) 0 d visited (dj_map1 map' v d))"
proof -
  from assms have v: "0 \<le> v" "nat v < length map'" by (auto simp: d_vertices_def)
  then have get: "py_get map' v = Inr (map' ! nat v)"
    by (simp add: py_get_def py_valid_def py_norm_def)
  from v have set: "py_set map' v (Fin d) = Inr (map'[nat v := Fin d])"
    by (simp add: py_set_def py_valid_def py_norm_def)
  have upd: "(if dist_less d (map' ! nat v) then py_set map' v (Fin d) else Inr map')
               = Inr (dj_map1 map' v d)"
    by (simp add: set dj_map1_def)
  note row = d_row[OF assms(1,3)]
  have "dijkstra_edges (adj_matrix g ! nat v) 0 d visited (dj_map1 map' v d) queue1 =
          Inr (queue1 @ dj_children (adj_matrix g ! nat v) 0 d visited (dj_map1 map' v d))"
    by (rule dijkstra_edges_eq) (simp_all add: row(2) dj_map1_length assms(2))
  then show ?thesis by (simp add: dijkstra_step_def get upd row(1))
qed

lemma d_vertices_card: "card (d_vertices g) = v_count g"
proof -
  have "d_vertices g = int ` {..<v_count g}"
  proof (intro set_eqI iffI)
    fix v assume "v \<in> d_vertices g"
    then have "v = int (nat v)" "nat v < v_count g" by (auto simp: d_vertices_def)
    then show "v \<in> int ` {..<v_count g}" by blast
  next
    fix v assume "v \<in> int ` {..<v_count g}"
    then show "v \<in> d_vertices g" by (auto simp: d_vertices_def)
  qed
  then show ?thesis by (simp add: card_image)
qed

lemma d_vertices_finite: "finite (d_vertices g)"
  using d_vertices_card[of g] by (cases "v_count g = 0") (auto simp: d_vertices_def intro: card_ge_0_finite)

lemma dj_good_length:
  assumes "dj_good g src map' visited e p"
  shows "p \<noteq> []" and "length p \<le> 2 * v_count g"
proof -
  from assms have w: "d_walk g p" and c: "\<And>x. count_list p x \<le> 2"
    by (simp_all add: dj_good_def d_path_def)
  from w show "p \<noteq> []" by auto
  from w have sub: "set p \<subseteq> d_vertices g" by (rule d_walk_vertices)
  have "length p = sum (count_list p) (d_vertices g)"
    using sum_count_set[OF sub d_vertices_finite] by simp
  also have "\<dots> \<le> sum (\<lambda>x. 2) (d_vertices g)" by (intro sum_mono c)
  also have "\<dots> = 2 * v_count g" by (simp add: d_vertices_card)
  finally show "length p \<le> 2 * v_count g" .
qed

lemma dj_measure_step:
  assumes "length p \<le> 2 * v_count g" and "length cs \<le> v_count g"
  shows "dj_measure g (ps1 @ map (\<lambda>e. p @ [fst e]) cs) < dj_measure g (p # ps1)"
proof -
  define B where "B = Suc (v_count g)"
  define r where "r = 2 * v_count g - length p"
  define S where "S = sum_list (map (\<lambda>q. B ^ (Suc (2 * v_count g) - length q)) ps1)"
  have r: "Suc (2 * v_count g) - length p = Suc r" using assms(1) by (simp add: r_def)
  have r': "2 * v_count g - length p = r" by (simp add: r_def)
  have m1: "dj_measure g (ps1 @ map (\<lambda>e. p @ [fst e]) cs) = S + length cs * B ^ r"
    by (simp add: dj_measure_def comp_def sum_list_triv r' S_def B_def)
  have m2: "dj_measure g (p # ps1) = B ^ Suc r + S"
    by (simp add: dj_measure_def r S_def B_def)
  have "length cs * B ^ r < B * B ^ r"
    using assms(2) by (intro mult_strict_right_mono) (simp_all add: B_def)
  then show ?thesis by (simp add: m1 m2)
qed

lemma dj_settled_mono:
  assumes "dj_settled g map' visited p" and "set visited \<subseteq> set visited1"
    and "set p \<subseteq> d_vertices g" and "length map' = v_count g"
    and dec: "\<And>x m. x < length map' \<Longrightarrow> map' ! x = Fin m \<Longrightarrow> \<exists>m'. map1 ! x = Fin m' \<and> m' \<le> m"
  shows "dj_settled g map1 visited1 p"
  unfolding dj_settled_def
proof (intro allI impI)
  fix k assume k: "0 < k \<and> k < length p"
  with assms(1) obtain m where v: "p ! (k - 1) \<in> set visited"
    and m: "map' ! nat (p ! (k - 1)) = Fin m" "m \<le> d_weight g (take k p)"
    unfolding dj_settled_def by blast
  from k have "k - 1 < length p" by arith
  then have "p ! (k - 1) \<in> set p" by (rule nth_mem)
  with assms(3,4) have "nat (p ! (k - 1)) < length map'" by (auto simp: d_vertices_def)
  from dec[OF this m(1)] obtain m' where "map1 ! nat (p ! (k - 1)) = Fin m'" "m' \<le> m" by blast
  with v m(2) assms(2)
  show "p ! (k - 1) \<in> set visited1
        \<and> (\<exists>m. map1 ! nat (p ! (k - 1)) = Fin m \<and> m \<le> d_weight g (take k p))"
    by auto
qed

lemma dj_settled_snoc:
  assumes "dj_settled g map1 visited1 p" and "p \<noteq> []" and "last p \<in> set visited1"
    and "map1 ! nat (last p) = Fin m" and "m \<le> d_weight g p"
  shows "dj_settled g map1 visited1 (p @ [u])"
  unfolding dj_settled_def
proof (intro allI impI)
  fix k assume k: "0 < k \<and> k < length (p @ [u])"
  show "(p @ [u]) ! (k - 1) \<in> set visited1
        \<and> (\<exists>m. map1 ! nat ((p @ [u]) ! (k - 1)) = Fin m \<and> m \<le> d_weight g (take k (p @ [u])))"
  proof (cases "k < length p")
    case True
    then have "k - 1 < length p" by arith
    with True have "(p @ [u]) ! (k - 1) = p ! (k - 1)" "take k (p @ [u]) = take k p"
      by (simp_all add: nth_append)
    with assms(1) k True show ?thesis unfolding dj_settled_def by simp
  next
    case False
    with k have kl: "k = length p" by simp
    then have "(p @ [u]) ! (k - 1) = last p" "take k (p @ [u]) = p"
      using assms(2) by (simp_all add: nth_append last_conv_nth)
    with assms(3,4,5) show ?thesis by simp
  qed
qed

lemma dj_settled_butlast:
  assumes "dj_settled g map' visited p" and "x \<in> set (butlast p)"
    and "d_square g" and "d_nonneg g" and "d_walk g p"
  shows "x \<in> set visited \<and> (\<exists>m. map' ! nat x = Fin m \<and> m \<le> d_weight g p)"
proof -
  from assms(2) obtain i where i: "i < length (butlast p)" "butlast p ! i = x"
    by (auto simp: in_set_conv_nth)
  then have "0 < Suc i \<and> Suc i < length p" "p ! (Suc i - 1) = x" by (simp_all add: nth_butlast)
  with assms(1) obtain m where "x \<in> set visited" "map' ! nat x = Fin m"
    "m \<le> d_weight g (take (Suc i) p)"
    unfolding dj_settled_def by blast
  with d_weight_take[OF assms(3,4,5), of "Suc i"] show ?thesis by force
qed

lemma dj_good_mono:
  assumes "dj_good g src map' visited e q" and "length map' = v_count g"
  shows "dj_good g src (dj_map1 map' v d) (visited @ [v]) e q"
proof -
  from assms(1) have w: "d_walk g q" by (simp add: dj_good_def d_path_def)
  have "dj_settled g (dj_map1 map' v d) (visited @ [v]) q"
  proof (rule dj_settled_mono[of g map' visited])
    show "dj_settled g map' visited q" using assms(1) by (simp add: dj_good_def)
    show "set visited \<subseteq> set (visited @ [v])" by auto
    show "set q \<subseteq> d_vertices g" using w by (rule d_walk_vertices)
    show "length map' = v_count g" by (rule assms(2))
    show "\<And>x m. x < length map' \<Longrightarrow> map' ! x = Fin m \<Longrightarrow>
            \<exists>m'. dj_map1 map' v d ! x = Fin m' \<and> m' \<le> m"
      by (rule dj_map1_decr)
  qed
  with assms(1) show ?thesis by (simp add: dj_good_def)
qed

lemma dj_good_child:
  assumes sq: "d_square g" and nn: "d_nonneg g" and len: "length map' = v_count g"
    and good: "dj_good g src map' visited (v, d) p"
    and child: "(u, c) \<in> set (dj_children (adj_matrix g ! nat v) 0 d visited (dj_map1 map' v d))"
  shows "dj_good g src (dj_map1 map' v d) (visited @ [v]) (u, c) (p @ [u])"
proof -
  from good have w: "d_walk g p" and hd: "hd p = src" and lst: "last p = v"
    and wt: "d_weight g p = d" and cnt: "\<And>x. count_list p x \<le> 2"
    and st: "dj_settled g map' visited p"
    by (simp_all add: dj_good_def d_path_def)
  from w have pne: "p \<noteq> []" by auto
  from w have sub: "set p \<subseteq> d_vertices g" by (rule d_walk_vertices)
  from pne lst sub have vV: "v \<in> d_vertices g" using last_in_set by blast
  then have v0: "0 \<le> v" "nat v < length map'" using len by (auto simp: d_vertices_def)
  note row = d_row[OF sq vV]
  from dj_children_mem[OF child] obtain j where j: "j < length (adj_matrix g ! nat v)"
    "u = 0 + int j" "adj_matrix g ! nat v ! j \<noteq> 0" "c = d + adj_matrix g ! nat v ! j"
    "u \<notin> set visited \<or> dist_less c (dj_map1 map' v d ! nat u)" by blast
  from j row(2) have uV: "u \<in> d_vertices g" by (simp add: d_vertices_def)
  from j have ju: "nat u = j" by simp
  from vV uV j(3) ju have e: "(v, u) \<in> d_edge g" by (simp add: d_edge_def)
  note pos = d_edge_pos[OF sq nn e]
  from j(4) ju have c: "c = d + adj_matrix g ! nat v ! nat u" by simp
  from dj_map1_at[OF v0, of d] obtain mv where mv: "dj_map1 map' v d ! nat v = Fin mv" "mv \<le> d"
    by blast
  have path: "d_path g src u (p @ [u])"
    using w hd lst e pne by (simp add: d_path_def d_walk_snoc)
  have weight: "d_weight g (p @ [u]) = c"
    using pne lst wt c by (simp add: d_weight_snoc)
  have st1: "dj_settled g (dj_map1 map' v d) (visited @ [v]) p"
    using dj_good_mono[OF good len, of v d] by (simp add: dj_good_def)
  have settled: "dj_settled g (dj_map1 map' v d) (visited @ [v]) (p @ [u])"
    by (rule dj_settled_snoc[OF st1 pne, of mv]) (simp_all add: lst mv wt)
  have once: "count_list p u \<le> 1"
  proof (cases "u \<in> set visited")
    case False
    have "u \<notin> set (butlast p)"
      using dj_settled_butlast[OF st _ sq nn w, of u] False by blast
    then have "count_list (butlast p) u = 0" by simp
    moreover have "p = butlast p @ [last p]" using pne by simp
    then have "count_list p u = count_list (butlast p) u + count_list [last p] u"
      by (metis count_list_append)
    ultimately show ?thesis by simp
  next
    case True
    with j(5) have dl: "dist_less c (dj_map1 map' v d ! nat u)" by simp
    have "u \<notin> set p"
    proof
      assume "u \<in> set p"
      then have "u \<in> set (butlast p) \<or> u = last p"
        using pne by (metis append_butlast_last_id in_set_conv_decomp_first insert_iff list.set(2) rotate1.simps(2) set_rotate1)
      then show False
      proof
        assume "u \<in> set (butlast p)"
        from dj_settled_butlast[OF st this sq nn w] obtain m where
          m: "map' ! nat u = Fin m" "m \<le> d" using wt by auto
        from uV len have "nat u < length map'" by (auto simp: d_vertices_def)
        from dj_map1_decr[OF m(1) this, of v d] obtain m' where
          "dj_map1 map' v d ! nat u = Fin m'" "m' \<le> m" by blast
        with dl m(2) c pos show False by simp
      next
        assume "u = last p"
        with lst mv dl c pos show False by simp
      qed
    qed
    then show ?thesis by simp
  qed
  have count: "count_list (p @ [u]) x \<le> 2" for x
    using cnt[of x] once by (cases "x = u") (simp_all add: count_list_append)
  from path weight settled count show ?thesis by (simp add: dj_good_def)
qed

lemma dj_inv_step:
  assumes sq: "d_square g" and nn: "d_nonneg g"
    and inv: "dj_inv g src map' visited ((v, d) # queue1) (p # ps1)"
  shows "dj_inv g src (dj_map1 map' v d) (visited @ [v])
           (queue1 @ dj_children (adj_matrix g ! nat v) 0 d visited (dj_map1 map' v d))
           (ps1 @ map (\<lambda>e. p @ [fst e])
                    (dj_children (adj_matrix g ! nat v) 0 d visited (dj_map1 map' v d)))"
proof -
  define cs where "cs = dj_children (adj_matrix g ! nat v) 0 d visited (dj_map1 map' v d)"
  from inv have len: "length map' = v_count g" and vis: "set visited \<subseteq> d_vertices g"
    and fin: "\<And>x. x \<in> set visited \<Longrightarrow> \<exists>m. map' ! nat x = Fin m"
    and good: "dj_good g src map' visited (v, d) p"
    and rest: "list_all2 (dj_good g src map' visited) queue1 ps1"
    by (auto simp: dj_inv_def)
  from good have w: "d_walk g p" and lst: "last p = v" by (simp_all add: dj_good_def d_path_def)
  from w have pne: "p \<noteq> []" by auto
  from w have "set p \<subseteq> d_vertices g" by (rule d_walk_vertices)
  with pne lst have vV: "v \<in> d_vertices g" using last_in_set by blast
  then have v0: "0 \<le> v" "nat v < length map'" using len by (auto simp: d_vertices_def)
  have finite1: "\<exists>m. dj_map1 map' v d ! nat x = Fin m" if "x \<in> set (visited @ [v])" for x
  proof (cases "x = v")
    case True
    with dj_map1_at[OF v0, of d] show ?thesis by blast
  next
    case False
    with that have x: "x \<in> set visited" by simp
    with vis len have "nat x < length map'" by (auto simp: d_vertices_def)
    with fin[OF x] dj_map1_decr[of map' "nat x" _ v d] show ?thesis by blast
  qed
  have r1: "list_all2 (dj_good g src (dj_map1 map' v d) (visited @ [v])) queue1 ps1"
    using rest dj_good_mono[OF _ len] by (rule list_all2_mono)
  have r2: "list_all2 (dj_good g src (dj_map1 map' v d) (visited @ [v])) cs
              (map (\<lambda>e. p @ [fst e]) cs)"
    unfolding list_all2_map2
  proof (rule list_all2_same[THEN iffD2], rule ballI)
    fix e assume "e \<in> set cs"
    then have "(fst e, snd e) \<in> set (dj_children (adj_matrix g ! nat v) 0 d visited (dj_map1 map' v d))"
      by (simp add: cs_def)
    from dj_good_child[OF sq nn len good this]
    show "dj_good g src (dj_map1 map' v d) (visited @ [v]) e (p @ [fst e])" by simp
  qed
  show ?thesis unfolding dj_inv_def cs_def[symmetric]
    using len vis vV finite1 r1 r2 by (auto simp: dj_map1_length intro: list_all2_appendI)
qed

lemma d_path_last_vertex: "d_path g src v p \<Longrightarrow> v \<in> d_vertices g"
proof -
  assume p: "d_path g src v p"
  then have w: "d_walk g p" and l: "last p = v" by (simp_all add: d_path_def)
  from w have "p \<noteq> []" by auto
  then have "last p \<in> set p" by (rule last_in_set)
  with d_walk_vertices[OF w] l show ?thesis by blast
qed

lemma dj_sound_step:
  assumes "dj_sound g src map'" and "d_path g src v p" and "d_weight g p = d"
    and "v \<in> d_vertices g" and "length map' = v_count g"
  shows "dj_sound g src (dj_map1 map' v d)"
  unfolding dj_sound_def
proof (intro allI impI)
  fix x m assume a: "x \<in> d_vertices g \<and> dj_map1 map' v d ! nat x = Fin m"
  with assms(5) have "nat x < length map'" by (auto simp: d_vertices_def)
  from dj_map1_cases[OF this, of v d] show "\<exists>p. d_path g src x p \<and> d_weight g p = m"
  proof
    assume "dj_map1 map' v d ! nat x = map' ! nat x"
    with a assms(1) show ?thesis unfolding dj_sound_def by auto
  next
    assume b: "nat x = nat v \<and> dist_less d (map' ! nat v) \<and> dj_map1 map' v d ! nat x = Fin d"
    with a assms(4) have "x = v" "m = d" by (auto simp: d_vertices_def)
    with assms(2,3) show ?thesis by blast
  qed
qed

lemma dj_relaxed_step:
  assumes sq: "d_square g" and len: "length map' = v_count g" and vV: "v \<in> d_vertices g"
    and sV: "src \<in> d_vertices g"
    and rel: "dj_relaxed g src map' ((v, d) # queue1)"
  shows "dj_relaxed g src (dj_map1 map' v d)
           (queue1 @ dj_children (adj_matrix g ! nat v) 0 d visited (dj_map1 map' v d))"
proof -
  define map1 where "map1 = dj_map1 map' v d"
  define cs where "cs = dj_children (adj_matrix g ! nat v) 0 d visited map1"
  from vV len have v0: "0 \<le> v" "nat v < length map'" by (auto simp: d_vertices_def)
  from dj_map1_at[OF v0, of d] obtain mv where mv: "map1 ! nat v = Fin mv" "mv \<le> d"
    unfolding map1_def by blast
  have dec: "\<exists>m'. map1 ! nat x = Fin m' \<and> m' \<le> m" if "x \<in> d_vertices g" "map' ! nat x = Fin m" for x m
  proof -
    from that(1) len have "nat x < length map'" by (auto simp: d_vertices_def)
    from dj_map1_decr[OF that(2) this] show ?thesis by (simp add: map1_def)
  qed
  have s: "(\<exists>m. map1 ! nat src = Fin m \<and> m \<le> 0) \<or> (src, 0) \<in> set (queue1 @ cs)"
  proof -
    from rel consider (a) m where "map' ! nat src = Fin m" "m \<le> 0"
      | (b) "(src, 0) = (v, d)" | (c) "(src, 0) \<in> set queue1"
      by (auto simp: dj_relaxed_def)
    then show ?thesis
    proof cases
      case a
      from dec[OF sV a(1)] a(2) show ?thesis by force
    next
      case b
      with mv show ?thesis by auto
    next
      case c
      then show ?thesis by simp
    qed
  qed
  have k: "(\<exists>m'. map1 ! nat y = Fin m' \<and> m' \<le> m + adj_matrix g ! nat x ! nat y)
           \<or> (y, m + adj_matrix g ! nat x ! nat y) \<in> set (queue1 @ cs)"
    if e: "(x, y) \<in> d_edge g" and m: "map1 ! nat x = Fin m" for x y m
  proof -
    from e have xV: "x \<in> d_vertices g" and yV: "y \<in> d_vertices g"
      and w: "adj_matrix g ! nat x ! nat y \<noteq> 0" by (simp_all add: d_edge_def)
    from xV len have "nat x < length map'" by (auto simp: d_vertices_def)
    from dj_map1_cases[OF this, of v d] show ?thesis
    proof
      assume "dj_map1 map' v d ! nat x = map' ! nat x"
      with m have old: "map' ! nat x = Fin m" by (simp add: map1_def)
      with rel e consider (r) m' where "map' ! nat y = Fin m'" "m' \<le> m + adj_matrix g ! nat x ! nat y"
        | (h) "(y, m + adj_matrix g ! nat x ! nat y) = (v, d)"
        | (q) "(y, m + adj_matrix g ! nat x ! nat y) \<in> set queue1"
        unfolding dj_relaxed_def by fastforce
      then show ?thesis
      proof cases
        case r
        from dec[OF yV r(1)] r(2) show ?thesis by force
      next
        case h
        with mv show ?thesis by auto
      next
        case q
        then show ?thesis by simp
      qed
    next
      assume b: "nat x = nat v \<and> dist_less d (map' ! nat v) \<and> dj_map1 map' v d ! nat x = Fin d"
      with xV vV m have xv: "x = v" and md: "m = d" by (auto simp: d_vertices_def map1_def)
      note row = d_row[OF sq vV]
      from yV row(2) have j: "nat y < length (adj_matrix g ! nat v)" by (auto simp: d_vertices_def)
      from yV have y: "0 + int (nat y) = y" by (simp add: d_vertices_def)
      show ?thesis
      proof (cases "y \<notin> set visited \<or> dist_less (d + adj_matrix g ! nat v ! nat y) (map1 ! nat y)")
        case True
        have "(0 + int (nat y), d + adj_matrix g ! nat v ! nat y) \<in> set cs"
          unfolding cs_def
          by (rule dj_children_intro[OF j]) (use w xv True y in simp_all)
        then have "(y, d + adj_matrix g ! nat v ! nat y) \<in> set cs" unfolding y .
        then show ?thesis by (simp add: xv md)
      next
        case False
        then have "\<not> dist_less (d + adj_matrix g ! nat v ! nat y) (map1 ! nat y)" by simp
        from not_dist_less[OF this] show ?thesis by (simp add: xv md)
      qed
    qed
  qed
  show ?thesis unfolding dj_relaxed_def map1_def[symmetric] cs_def[symmetric]
    using s k by blast
qed

lemma dijkstra_loop_result:
  assumes sq: "d_square g" and nn: "d_nonneg g" and sV: "src \<in> d_vertices g"
  shows "dj_inv g src map' visited queue ps \<Longrightarrow> dj_sound g src map' \<Longrightarrow>
         dj_relaxed g src map' queue \<Longrightarrow>
         \<exists>r. dijkstra_loop (adj_matrix g) map' visited queue = Some (Inr r)
             \<and> length r = v_count g \<and> dj_sound g src r \<and> dj_relaxed g src r []"
proof (induction "dj_measure g ps" arbitrary: map' visited queue ps rule: less_induct)
  case less
  show ?case
  proof (cases queue)
    case Nil
    with less.prems show ?thesis by (subst dijkstra_loop.simps) (simp add: dj_inv_def)
  next
    case (Cons e queue1)
    obtain v d where e: "e = (v, d)" by (cases e)
    from less.prems(1) Cons obtain p ps1 where ps: "ps = p # ps1"
      by (auto simp: dj_inv_def list_all2_Cons1)
    from less.prems(1) have inv: "dj_inv g src map' visited ((v, d) # queue1) (p # ps1)"
      by (simp add: Cons e ps)
    then have len: "length map' = v_count g" and good: "dj_good g src map' visited (v, d) p"
      by (simp_all add: dj_inv_def)
    from good have path: "d_path g src v p" and wt: "d_weight g p = d"
      by (simp_all add: dj_good_def)
    from path have vV: "v \<in> d_vertices g" by (rule d_path_last_vertex)
    define map1 where "map1 = dj_map1 map' v d"
    define cs where "cs = dj_children (adj_matrix g ! nat v) 0 d visited map1"
    have step: "dijkstra_step (adj_matrix g) map' visited v d queue1
                  = Inr (map1, visited @ [v], queue1 @ cs)"
      unfolding map1_def cs_def by (rule dijkstra_step_eq[OF sq len vV])
    have inv1: "dj_inv g src map1 (visited @ [v]) (queue1 @ cs) (ps1 @ map (\<lambda>e. p @ [fst e]) cs)"
      unfolding map1_def cs_def by (rule dj_inv_step[OF sq nn inv])
    have snd1: "dj_sound g src map1"
      unfolding map1_def by (rule dj_sound_step[OF less.prems(2) path wt vV len])
    have rel1: "dj_relaxed g src map1 (queue1 @ cs)"
      unfolding map1_def cs_def
      by (rule dj_relaxed_step[OF sq len vV sV]) (use less.prems(3) Cons e in simp)
    have "length cs \<le> v_count g"
      using dj_children_length[of "adj_matrix g ! nat v" 0 d visited map1] d_row(2)[OF sq vV]
      by (simp add: cs_def)
    with dj_good_length(2)[OF good]
    have "dj_measure g (ps1 @ map (\<lambda>e. p @ [fst e]) cs) < dj_measure g ps"
      unfolding ps by (rule dj_measure_step)
    from less.hyps[OF this inv1 snd1 rel1] obtain r where
      "dijkstra_loop (adj_matrix g) map1 (visited @ [v]) (queue1 @ cs) = Some (Inr r)"
      "length r = v_count g" "dj_sound g src r" "dj_relaxed g src r []" by blast
    then show ?thesis by (subst dijkstra_loop.simps) (simp add: Cons e step)
  qed
qed

lemma dj_init:
  assumes "src \<in> d_vertices g"
  shows "dj_inv g src (replicate (v_count g) Inf) [] [(src, 0)] [[src]]"
    and "dj_sound g src (replicate (v_count g) Inf)"
    and "dj_relaxed g src (replicate (v_count g) Inf) [(src, 0)]"
proof -
  have inf: "replicate (v_count g) Inf ! nat x \<noteq> Fin m" if "x \<in> d_vertices g" for x m
  proof -
    from that have "nat x < v_count g" by (auto simp: d_vertices_def)
    then show ?thesis by simp
  qed
  have "dj_good g src (replicate (v_count g) Inf) [] (src, 0) [src]"
    using assms by (auto simp: dj_good_def d_path_def dj_settled_def)
  then show "dj_inv g src (replicate (v_count g) Inf) [] [(src, 0)] [[src]]"
    by (simp add: dj_inv_def)
  show "dj_sound g src (replicate (v_count g) Inf)"
    unfolding dj_sound_def using inf by blast
  show "dj_relaxed g src (replicate (v_count g) Inf) [(src, 0)]"
    unfolding dj_relaxed_def using inf by (auto simp: d_edge_def)
qed

lemma dijkstra_result:
  assumes "d_square g" and "d_nonneg g" and "src \<in> d_vertices g"
  shows "\<exists>r. dijkstra g src = Some (Inr r) \<and> length r = v_count g
           \<and> dj_sound g src r \<and> dj_relaxed g src r []"
  unfolding dijkstra_def
  by (rule dijkstra_loop_result[OF assms dj_init[OF assms(3)]])

lemma dj_final_le:
  assumes sq: "d_square g" and nn: "d_nonneg g" and rel: "dj_relaxed g src r []"
  shows "d_path g src y q \<Longrightarrow> \<exists>m. r ! nat y = Fin m \<and> m \<le> d_weight g q"
proof (induction q arbitrary: y rule: rev_induct)
  case Nil
  then show ?case by (simp add: d_path_def)
next
  case (snoc z q)
  from snoc.prems have "d_walk g (q @ [z]) \<and> hd (q @ [z]) = src \<and> z = y"
    unfolding d_path_def by auto
  then have w: "d_walk g (q @ [z])" and h: "hd (q @ [z]) = src" and zy: "z = y"
    by blast+
  show ?case
  proof (cases "q = []")
    case True
    with h zy have "y = src" by simp
    with rel True zy show ?thesis by (auto simp: dj_relaxed_def)
  next
    case False
    with w have wq: "d_walk g q" and e: "(last q, z) \<in> d_edge g" by (simp_all add: d_walk_snoc)
    from False h have "hd q = src" by simp
    with wq have "d_path g src (last q) q" by (simp add: d_path_def)
    from snoc.IH[OF this] obtain m where m: "r ! nat (last q) = Fin m" "m \<le> d_weight g q" by blast
    from rel e m(1) obtain m' where "r ! nat z = Fin m'"
      "m' \<le> m + adj_matrix g ! nat (last q) ! nat z"
      unfolding dj_relaxed_def by fastforce
    with m(2) False zy show ?thesis by (simp add: d_weight_snoc)
  qed
qed

lemma d_reach_path:
  assumes "src \<in> d_vertices g" and "(src, y) \<in> (d_edge g)\<^sup>*"
  shows "\<exists>q. d_path g src y q"
  using assms(2)
proof (induction rule: rtrancl_induct)
  case base
  from assms(1) have "d_path g src src [src]" by (simp add: d_path_def)
  then show ?case by blast
next
  case (step y z)
  then obtain q where q: "d_path g src y q" by blast
  then have "q \<noteq> []" by (auto simp: d_path_def)
  with q step.hyps(2) have "d_path g src z (q @ [z])" by (simp add: d_path_def d_walk_snoc)
  then show ?case by blast
qed

lemma d_walk_reach: "d_walk g q \<Longrightarrow> (hd q, last q) \<in> (d_edge g)\<^sup>*"
proof (induction g q rule: d_walk.induct)
  case (3 g v u p)
  then have "(v, u) \<in> d_edge g" "(u, last (u # p)) \<in> (d_edge g)\<^sup>*" by simp_all
  then show ?case by (simp add: converse_rtrancl_into_rtrancl)
qed simp_all

lemma d_path_reach: "d_path g src y q \<Longrightarrow> (src, y) \<in> (d_edge g)\<^sup>*"
  using d_walk_reach[of g q] by (auto simp: d_path_def)

lemma dijkstra_values:
  assumes sq: "d_square g" and nn: "d_nonneg g" and sV: "src \<in> d_vertices g"
    and len: "length r = v_count g" and snd: "dj_sound g src r" and rel: "dj_relaxed g src r []"
  shows "r ! nat src = Fin 0"
    and "i \<in> d_vertices g \<Longrightarrow> (src, i) \<notin> (d_edge g)\<^sup>* \<Longrightarrow> r ! nat i = Inf"
    and "(src, i) \<in> (d_edge g)\<^sup>* \<Longrightarrow>
           \<exists>m p. r ! nat i = Fin m \<and> d_path g src i p \<and> d_weight g p = m
                 \<and> (\<forall>q. d_path g src i q \<longrightarrow> m \<le> d_weight g q)"
proof -
  have least: "\<exists>m p. r ! nat y = Fin m \<and> d_path g src y p \<and> d_weight g p = m
                 \<and> (\<forall>q. d_path g src y q \<longrightarrow> m \<le> d_weight g q)"
    if "d_path g src y q0" for y q0
  proof -
    from dj_final_le[OF sq nn rel that] obtain m where m: "r ! nat y = Fin m" by blast
    from that have "y \<in> d_vertices g" by (rule d_path_last_vertex)
    with snd m obtain p where p: "d_path g src y p" "d_weight g p = m"
      unfolding dj_sound_def by blast
    have "m \<le> d_weight g q" if "d_path g src y q" for q
      using dj_final_le[OF sq nn rel that] m by simp
    with m p show ?thesis by blast
  qed
  from sV have s: "d_path g src src [src]" by (simp add: d_path_def)
  from least[OF s] obtain m p where m: "r ! nat src = Fin m" "d_path g src src p"
    "d_weight g p = m" "\<forall>q. d_path g src src q \<longrightarrow> m \<le> d_weight g q" by blast
  from m(4) s have "m \<le> 0" by fastforce
  moreover from m(2,3) d_weight_nonneg[OF sq nn, of p] have "0 \<le> m" by (simp add: d_path_def)
  ultimately show "r ! nat src = Fin 0" using m(1) by simp
  show "r ! nat i = Inf" if "i \<in> d_vertices g" "(src, i) \<notin> (d_edge g)\<^sup>*"
  proof (cases "r ! nat i")
    case (Fin m)
    with snd that(1) obtain p where "d_path g src i p" unfolding dj_sound_def by blast
    from d_path_reach[OF this] that(2) show ?thesis by simp
  next
    case Inf
    then show ?thesis .
  qed
  show "\<exists>m p. r ! nat i = Fin m \<and> d_path g src i p \<and> d_weight g p = m
                 \<and> (\<forall>q. d_path g src i q \<longrightarrow> m \<le> d_weight g q)"
    if "(src, i) \<in> (d_edge g)\<^sup>*"
  proof -
    from d_reach_path[OF sV that] obtain q0 where "d_path g src i q0" by blast
    from least[OF this] show ?thesis .
  qed
qed

lemma dijkstra_example: "dijkstra d_graph3 0 = Some (Inr [Fin 0, Fin 10, Fin 15])"
  by (simp add: dijkstra_def d_graph3_def dijkstra_loop.simps dijkstra_step_def py_get_def
      py_set_def py_valid_def py_norm_def numeral_3_eq_3)

section \<open>has\_cycle of the directed graph\<close>

lemma d_finds_unfold:
  "d_finds g v A = (\<exists>u. (v, u) \<in> d_edge g \<and> (u \<in> insert v A \<or> d_finds g u (insert v A)))"
proof
  assume "d_finds g v A"
  then consider (hit) a where "a \<in> A" "(v, a) \<in> (d_edge g)\<^sup>+"
    | (cyc) w where "(v, w) \<in> (d_edge g)\<^sup>*" "(w, w) \<in> (d_edge g)\<^sup>+"
    by (auto simp: d_finds_def)
  then show "\<exists>u. (v, u) \<in> d_edge g \<and> (u \<in> insert v A \<or> d_finds g u (insert v A))"
  proof cases
    case hit
    from tranclD[OF hit(2)] obtain u where u: "(v, u) \<in> d_edge g" "(u, a) \<in> (d_edge g)\<^sup>*" by blast
    from u(2) have "u = a \<or> (u, a) \<in> (d_edge g)\<^sup>+" by (auto simp: rtrancl_eq_or_trancl)
    with hit(1) have "u \<in> insert v A \<or> d_finds g u (insert v A)" by (auto simp: d_finds_def)
    with u(1) show ?thesis by blast
  next
    case cyc
    show ?thesis
    proof (cases "v = w")
      case True
      with cyc(2) have "(v, v) \<in> (d_edge g)\<^sup>+" by simp
      from tranclD[OF this] obtain u where u: "(v, u) \<in> d_edge g" "(u, v) \<in> (d_edge g)\<^sup>*" by blast
      from u(2) have "u = v \<or> (u, v) \<in> (d_edge g)\<^sup>+" by (auto simp: rtrancl_eq_or_trancl)
      then have "u \<in> insert v A \<or> d_finds g u (insert v A)" by (auto simp: d_finds_def)
      with u(1) show ?thesis by blast
    next
      case False
      with cyc(1) have "(v, w) \<in> (d_edge g)\<^sup>+" by (auto simp: rtrancl_eq_or_trancl)
      from tranclD[OF this] obtain u where u: "(v, u) \<in> d_edge g" "(u, w) \<in> (d_edge g)\<^sup>*" by blast
      with cyc(2) have "d_finds g u (insert v A)" by (auto simp: d_finds_def)
      with u(1) show ?thesis by blast
    qed
  qed
next
  assume "\<exists>u. (v, u) \<in> d_edge g \<and> (u \<in> insert v A \<or> d_finds g u (insert v A))"
  then obtain u where e: "(v, u) \<in> d_edge g"
    and u: "u \<in> insert v A \<or> d_finds g u (insert v A)" by blast
  from u consider (self) "u = v" | (inA) "u \<in> A"
    | (hit) a where "a \<in> insert v A" "(u, a) \<in> (d_edge g)\<^sup>+"
    | (cyc) w where "(u, w) \<in> (d_edge g)\<^sup>*" "(w, w) \<in> (d_edge g)\<^sup>+"
    by (auto simp: d_finds_def)
  then show "d_finds g v A"
  proof cases
    case self
    with e have "(v, v) \<in> (d_edge g)\<^sup>+" by auto
    then show ?thesis unfolding d_finds_def by blast
  next
    case inA
    with e show ?thesis unfolding d_finds_def by blast
  next
    case hit
    from e hit(2) have va: "(v, a) \<in> (d_edge g)\<^sup>+" by (rule trancl_into_trancl2)
    show ?thesis
    proof (cases "a = v")
      case True
      with va show ?thesis unfolding d_finds_def by blast
    next
      case False
      with hit(1) va show ?thesis unfolding d_finds_def by blast
    qed
  next
    case cyc
    from e cyc(1) have "(v, w) \<in> (d_edge g)\<^sup>*" by (rule converse_rtrancl_into_rtrancl)
    with cyc(2) show ?thesis unfolding d_finds_def by blast
  qed
qed

lemma ex_less_Suc_conv: "(\<exists>j<Suc n. Q j) = (Q 0 \<or> (\<exists>j<n. Q (Suc j)))"
  by (metis less_Suc_eq_0_disj)

lemma d_vertex_count: "0 \<le> count \<Longrightarrow> nat count + Suc k = v_count g \<Longrightarrow> count \<in> d_vertices g"
  by (auto simp: d_vertices_def)

lemma d_for_spec:
  assumes H: "\<And>u vis. u \<in> d_vertices g \<Longrightarrow> u \<notin> set vis \<Longrightarrow> set vis \<subseteq> d_vertices g \<Longrightarrow>
      card (d_vertices g - set vis) \<le> f \<Longrightarrow>
      \<exists>b vis'. d_has_Cycle_helper f (adj_matrix g) u vis = Some (Inr (b, vis'))
          \<and> (b = d_finds g u (set vis)) \<and> (\<not> b \<longrightarrow> vis' = vis)"
    and ne: "visited \<noteq> []"
  shows "0 \<le> count \<Longrightarrow> nat count + length row = v_count g \<Longrightarrow> set visited \<subseteq> d_vertices g \<Longrightarrow>
      card (d_vertices g - set visited) \<le> f \<Longrightarrow>
      \<exists>b vis'. d_has_Cycle_for f (adj_matrix g) row count visited = Some (Inr (b, vis'))
          \<and> (b = (\<exists>j<length row. row ! j \<noteq> 0
                    \<and> (count + int j \<in> set visited \<or> d_finds g (count + int j) (set visited))))
          \<and> (\<not> b \<longrightarrow> vis' = butlast visited)"
proof (induction row arbitrary: count)
  case Nil
  show ?case using ne by (intro exI[of _ False] exI[of _ "butlast visited"]) simp
next
  case (Cons i row)
  from Cons.prems have cV: "count \<in> d_vertices g" by (auto intro: d_vertex_count)
  from Cons.prems have n: "0 \<le> count + 1" "nat (count + 1) + length row = v_count g" by simp_all
  note IH = Cons.IH[OF n Cons.prems(3,4)]
  have shift: "(\<exists>j<length (i # row). (i # row) ! j \<noteq> 0
                    \<and> (count + int j \<in> set visited \<or> d_finds g (count + int j) (set visited)))
      = ((i \<noteq> 0 \<and> (count \<in> set visited \<or> d_finds g count (set visited)))
         \<or> (\<exists>j<length row. row ! j \<noteq> 0
                    \<and> (count + 1 + int j \<in> set visited \<or> d_finds g (count + 1 + int j) (set visited))))"
    by (simp add: ex_less_Suc_conv add.assoc add.commute[of 1])
  show ?case
  proof (cases "i \<noteq> 0")
    case False
    with IH show ?thesis unfolding shift by simp
  next
    case nz: True
    show ?thesis
    proof (cases "count \<in> set visited")
      case True
      with nz show ?thesis unfolding shift by auto
    next
      case False
      from H[OF cV False Cons.prems(3,4)] obtain b1 vis1 where
        h: "d_has_Cycle_helper f (adj_matrix g) count visited = Some (Inr (b1, vis1))"
        "b1 = d_finds g count (set visited)" "\<not> b1 \<longrightarrow> vis1 = visited" by blast
      show ?thesis
      proof (cases b1)
        case True
        with h nz False show ?thesis unfolding shift by auto
      next
        case nf: False
        with h have "vis1 = visited" by simp
        with h nz False nf IH show ?thesis unfolding shift by simp
      qed
    qed
  qed
qed

lemma d_helper_spec:
  assumes sq: "d_square g"
  shows "v \<in> d_vertices g \<Longrightarrow> v \<notin> set vis \<Longrightarrow> set vis \<subseteq> d_vertices g \<Longrightarrow>
      card (d_vertices g - set vis) \<le> f \<Longrightarrow>
      \<exists>b vis'. d_has_Cycle_helper f (adj_matrix g) v vis = Some (Inr (b, vis'))
          \<and> (b = d_finds g v (set vis)) \<and> (\<not> b \<longrightarrow> vis' = vis)"
proof (induction f arbitrary: v vis)
  case 0
  from "0.prems"(1,2) have "v \<in> d_vertices g - set vis" by simp
  moreover have "finite (d_vertices g - set vis)" using d_vertices_finite by simp
  ultimately have "card (d_vertices g - set vis) \<noteq> 0" by auto
  with "0.prems"(4) show ?case by simp
next
  case (Suc f)
  note row = d_row[OF sq Suc.prems(1)]
  have sub: "set (vis @ [v]) \<subseteq> d_vertices g" using Suc.prems(1,3) by simp
  have "d_vertices g - set (vis @ [v]) = (d_vertices g - set vis) - {v}" by auto
  moreover have "card ((d_vertices g - set vis) - {v}) = card (d_vertices g - set vis) - 1"
    using Suc.prems(1,2) by (intro card_Diff_singleton) simp
  ultimately have c: "card (d_vertices g - set (vis @ [v])) \<le> f" using Suc.prems(4) by simp
  have z: "(0::int) \<le> 0" "nat 0 + length (adj_matrix g ! nat v) = v_count g"
    by (simp_all add: row(2))
  have ne: "vis @ [v] \<noteq> []" by simp
  from d_for_spec[OF Suc.IH ne z sub c] obtain b vis' where
    r: "d_has_Cycle_for f (adj_matrix g) (adj_matrix g ! nat v) 0 (vis @ [v]) = Some (Inr (b, vis'))"
    "b = (\<exists>j<length (adj_matrix g ! nat v). adj_matrix g ! nat v ! j \<noteq> 0
             \<and> (0 + int j \<in> set (vis @ [v]) \<or> d_finds g (0 + int j) (set (vis @ [v]))))"
    "\<not> b \<longrightarrow> vis' = butlast (vis @ [v])" by blast
  have "(\<exists>j<length (adj_matrix g ! nat v). adj_matrix g ! nat v ! j \<noteq> 0
             \<and> (0 + int j \<in> set (vis @ [v]) \<or> d_finds g (0 + int j) (set (vis @ [v]))))
        = (\<exists>u. (v, u) \<in> d_edge g \<and> (u \<in> insert v (set vis) \<or> d_finds g u (insert v (set vis))))"
    (is "?L = ?R")
  proof
    assume ?L
    then obtain j where j: "j < v_count g" "adj_matrix g ! nat v ! j \<noteq> 0"
      "int j \<in> insert v (set vis) \<or> d_finds g (int j) (insert v (set vis))"
      by (auto simp: row(2))
    from j(1,2) Suc.prems(1) have "(v, int j) \<in> d_edge g" by (simp add: d_edge_def d_vertices_def)
    with j(3) show ?R by blast
  next
    assume ?R
    then obtain u where u: "(v, u) \<in> d_edge g"
      "u \<in> insert v (set vis) \<or> d_finds g u (insert v (set vis))" by blast
    from u(1) have "nat u < v_count g" "adj_matrix g ! nat v ! nat u \<noteq> 0" "int (nat u) = u"
      by (auto simp: d_edge_def d_vertices_def)
    with u(2) show ?L by (intro exI[of _ "nat u"]) (simp add: row(2))
  qed
  with r(2) have "b = d_finds g v (set vis)" by (simp add: d_finds_unfold[of g v "set vis"])
  with r(1,3) row(1) show ?case by simp
qed

lemma d_has_cycle_for_spec:
  assumes sq: "d_square g" and f: "v_count g \<le> f"
  shows "0 \<le> count \<Longrightarrow> nat count + length rows = v_count g \<Longrightarrow>
      d_has_cycle_for f (adj_matrix g) rows count []
        = Some (Inr (\<exists>j<length rows. d_finds g (count + int j) {}))"
proof (induction rows arbitrary: count)
  case Nil
  show ?case by simp
next
  case (Cons r rows)
  from Cons.prems have cV: "count \<in> d_vertices g" by (auto intro: d_vertex_count)
  from Cons.prems have n: "0 \<le> count + 1" "nat (count + 1) + length rows = v_count g" by simp_all
  have c: "card (d_vertices g - set []) \<le> f" using f by (simp add: d_vertices_card)
  from d_helper_spec[OF sq cV _ _ c] obtain b vis' where
    h: "d_has_Cycle_helper f (adj_matrix g) count [] = Some (Inr (b, vis'))"
    "b = d_finds g count {}" "\<not> b \<longrightarrow> vis' = []" by auto
  have shift: "(\<exists>j<length (r # rows). d_finds g (count + int j) {})
      = (d_finds g count {} \<or> (\<exists>j<length rows. d_finds g (count + 1 + int j) {}))"
    by (simp add: ex_less_Suc_conv add.assoc add.commute[of 1])
  show ?case
  proof (cases b)
    case True
    with h show ?thesis unfolding shift by simp
  next
    case False
    with h have "vis' = []" by simp
    with h False Cons.IH[OF n] show ?thesis unfolding shift by simp
  qed
qed

lemma d_has_cycle_correct:
  assumes sq: "d_square g" and f: "v_count g \<le> f"
  shows "d_has_cycle f g = Some (Inr (d_cyclic g))"
proof -
  from sq have len: "length (adj_matrix g) = v_count g" by (simp add: d_square_def)
  have "d_has_cycle f g = Some (Inr (\<exists>j<v_count g. d_finds g (0 + int j) {}))"
    unfolding d_has_cycle_def using d_has_cycle_for_spec[OF sq f, of 0 "adj_matrix g"] len by simp
  moreover have "(\<exists>j<v_count g. d_finds g (0 + int j) {}) = d_cyclic g"
  proof
    assume "\<exists>j<v_count g. d_finds g (0 + int j) {}"
    then show "d_cyclic g" by (auto simp: d_finds_def d_cyclic_def)
  next
    assume "d_cyclic g"
    then obtain w where w: "(w, w) \<in> (d_edge g)\<^sup>+" by (auto simp: d_cyclic_def)
    from tranclD[OF w] have "w \<in> d_vertices g" by (auto simp: d_edge_def)
    then have "nat w < v_count g" "0 + int (nat w) = w" by (auto simp: d_vertices_def)
    moreover from w have "d_finds g w {}" by (auto simp: d_finds_def)
    ultimately show "\<exists>j<v_count g. d_finds g (0 + int j) {}" by metis
  qed
  ultimately show ?thesis by simp
qed

section \<open>has\_cycle of the undirected graph\<close>

lemma ud_sym: "ud_inv g \<Longrightarrow> (u \<in> set (ud_adj g v)) = (v \<in> set (ud_adj g u))"
  by (simp add: ud_inv_def)

lemma ud_irr: "ud_inv g \<Longrightarrow> v \<notin> set (ud_adj g v)"
  by (simp add: ud_inv_def)

lemma ud_dist: "ud_inv g \<Longrightarrow> distinct (ud_adj g v)"
  by (simp add: ud_inv_def)

lemma ud_nbr_key:
  assumes "ud_inv g" and "u \<in> set (ud_adj g v)"
  shows "u \<in> fst ` set g" and "v \<in> fst ` set g"
proof -
  from assms(2) show "v \<in> fst ` set g" by (rule ud_adj_key)
  from assms have "v \<in> set (ud_adj g u)" by (simp add: ud_sym)
  then show "u \<in> fst ` set g" by (rule ud_adj_key)
qed

lemma ud_earlier_append: "x \<in> set vis \<Longrightarrow> ud_earlier (vis @ ys) x = ud_earlier vis x"
  by (simp add: ud_earlier_def takeWhile_append1)

lemma ud_earlier_here: "x \<notin> set A \<Longrightarrow> ud_earlier (A @ x # ys) x = set A"
proof -
  assume "x \<notin> set A"
  then have "takeWhile (\<lambda>u. u \<noteq> x) (A @ x # ys) = A @ takeWhile (\<lambda>u. u \<noteq> x) (x # ys)"
    by (intro takeWhile_append2) auto
  then show ?thesis by (simp add: ud_earlier_def)
qed

lemma ud_order_append:
  assumes "ud_order g vis S" and "S \<subseteq> set vis"
  shows "ud_order g (vis @ ys) S"
  unfolding ud_order_def
proof (intro ballI allI impI)
  fix x y z assume x: "x \<in> S"
    and a: "y \<in> set (ud_adj g x) \<and> y \<in> ud_earlier (vis @ ys) x
          \<and> z \<in> set (ud_adj g x) \<and> z \<in> ud_earlier (vis @ ys) x"
  from x assms(2) have "ud_earlier (vis @ ys) x = ud_earlier vis x"
    by (intro ud_earlier_append) auto
  with a assms(1) x show "y = z" unfolding ud_order_def by blast
qed

lemma successively_nth:
  "successively P xs \<Longrightarrow> Suc k < length xs \<Longrightarrow> P (xs ! k) (xs ! Suc k)"
proof (induction P xs arbitrary: k rule: successively.induct)
  case (3 P x y xs)
  then show ?case by (cases k) auto
qed simp_all

lemma ud_cycleI:
  assumes s: "successively (\<lambda>a b. b \<in> set (ud_adj g a)) cs"
    and c: "hd cs \<in> set (ud_adj g (last cs))" and d: "distinct cs" and l: "3 \<le> length cs"
  shows "ud_cycle g cs"
  unfolding ud_cycle_def
proof (intro conjI allI impI)
  show "3 \<le> length cs" by (rule l)
  show "distinct cs" by (rule d)
  fix k assume k: "k < length cs"
  from l have ne: "cs \<noteq> []" by auto
  show "(cs ! k, cs ! (Suc k mod length cs)) \<in> ud_edge g"
  proof (cases "Suc k < length cs")
    case True
    with successively_nth[OF s True] show ?thesis by (simp add: ud_edge_def)
  next
    case False
    with k have e: "Suc k = length cs" by simp
    then have "k = length cs - 1" by simp
    then have "cs ! k = last cs" using ne by (simp add: last_conv_nth)
    moreover have "cs ! (Suc k mod length cs) = hd cs" using e ne by (simp add: hd_conv_nth)
    ultimately show ?thesis using c by (simp add: ud_edge_def)
  qed
qed

lemma ud_cycle_from_stack:
  assumes s: "successively (\<lambda>a b. b \<in> set (ud_adj g a)) stack" and d: "distinct stack"
    and i: "i \<in> set stack" and q: "last stack \<noteq> i" and v: "v \<notin> set stack"
    and vq: "v \<in> set (ud_adj g (last stack))" and iv: "i \<in> set (ud_adj g v)"
  shows "\<exists>cs. ud_cycle g cs"
proof -
  from i obtain s1 s2 where st: "stack = s1 @ i # s2" by (auto simp: in_set_conv_decomp)
  with q have s2: "s2 \<noteq> []" by auto
  from st s2 have lst: "last (i # s2) = last stack" by simp
  from s st have s': "successively (\<lambda>a b. b \<in> set (ud_adj g a)) (i # s2)"
    by (simp add: successively_append_iff)
  have "successively (\<lambda>a b. b \<in> set (ud_adj g a)) ((i # s2) @ [v])"
    unfolding successively_append_iff using s' vq lst by simp
  moreover have "hd ((i # s2) @ [v]) \<in> set (ud_adj g (last ((i # s2) @ [v])))" using iv by simp
  moreover have "distinct ((i # s2) @ [v])" using d v st by auto
  moreover have "3 \<le> length ((i # s2) @ [v])" using s2 by (cases s2) auto
  ultimately have "ud_cycle g ((i # s2) @ [v])" by (rule ud_cycleI)
  then show ?thesis by blast
qed

lemma ud_latest:
  "distinct vis \<Longrightarrow> S \<subseteq> set vis \<Longrightarrow> S \<noteq> {} \<Longrightarrow> \<exists>x\<in>S. S - {x} \<subseteq> ud_earlier vis x"
proof (induction vis rule: rev_induct)
  case Nil
  then show ?case by simp
next
  case (snoc u vis)
  show ?case
  proof (cases "u \<in> S")
    case True
    from snoc.prems(1) have "u \<notin> set vis" by simp
    then have "ud_earlier (vis @ [u]) u = set vis" by (rule ud_earlier_here)
    with snoc.prems(2) True show ?thesis by (intro bexI[of _ u]) auto
  next
    case False
    with snoc.prems have "distinct vis" "S \<subseteq> set vis" by auto
    from snoc.IH[OF this snoc.prems(3)] obtain x where x: "x \<in> S" "S - {x} \<subseteq> ud_earlier vis x"
      by blast
    from x(1) \<open>S \<subseteq> set vis\<close> have "ud_earlier (vis @ [u]) x = ud_earlier vis x"
      by (intro ud_earlier_append) auto
    with x show ?thesis by auto
  qed
qed

lemma ud_top_acyclic:
  assumes inv: "ud_inv g" and top: "ud_top g vis" and all: "fst ` set g \<subseteq> set vis"
  shows "\<not> ud_cycle g cs"
proof
  assume cyc: "ud_cycle g cs"
  define n where "n = length cs"
  from cyc have n3: "3 \<le> n" and dc: "distinct cs"
    and edge: "\<And>k. k < n \<Longrightarrow> cs ! (Suc k mod n) \<in> set (ud_adj g (cs ! k))"
    by (auto simp: ud_cycle_def ud_edge_def n_def)
  from top have dv: "distinct vis" and ord: "ud_order g vis (set vis)" by (simp_all add: ud_top_def)
  have sub: "set cs \<subseteq> set vis"
  proof
    fix x assume "x \<in> set cs"
    then obtain k where "k < n" "cs ! k = x" by (auto simp: in_set_conv_nth n_def)
    with edge[of k] have "cs ! (Suc k mod n) \<in> set (ud_adj g x)" by simp
    then have "x \<in> fst ` set g" by (rule ud_adj_key)
    with all show "x \<in> set vis" by blast
  qed
  from n3 have "set cs \<noteq> {}" by (auto simp: n_def)
  from ud_latest[OF dv sub this] obtain x where x: "x \<in> set cs" "set cs - {x} \<subseteq> ud_earlier vis x"
    by blast
  then obtain k where k: "k < n" "cs ! k = x" by (auto simp: in_set_conv_nth n_def)
  define sk where "sk = (if Suc k = n then 0 else Suc k)"
  define pk where "pk = (if k = 0 then n - 1 else k - 1)"
  from k(1) n3 have sk: "sk < n" "sk \<noteq> k" "Suc k mod n = sk" by (auto simp: sk_def)
  from k(1) n3 have pk: "pk < n" "pk \<noteq> k" "Suc pk mod n = k" by (auto simp: pk_def)
  from k(1) n3 have ne: "sk \<noteq> pk" by (auto simp: sk_def pk_def)
  from edge[OF k(1)] sk(3) k(2) have y: "cs ! sk \<in> set (ud_adj g x)" by simp
  from edge[OF pk(1)] pk(3) k(2) have "x \<in> set (ud_adj g (cs ! pk))" by simp
  with inv have z: "cs ! pk \<in> set (ud_adj g x)" by (simp add: ud_sym)
  from dc sk k have "cs ! sk \<noteq> x" by (auto simp: nth_eq_iff_index_eq n_def)
  with sk(1) x(2) have ye: "cs ! sk \<in> ud_earlier vis x" by (auto simp: n_def)
  from dc pk k have "cs ! pk \<noteq> x" by (auto simp: nth_eq_iff_index_eq n_def)
  with pk(1) x(2) have ze: "cs ! pk \<in> ud_earlier vis x" by (auto simp: n_def)
  from x(1) sub have "x \<in> set vis" by blast
  with ord y ye z ze have "cs ! sk = cs ! pk" unfolding ud_order_def by blast
  with dc sk(1) pk(1) ne show False by (auto simp: nth_eq_iff_index_eq n_def)
qed

lemma ud_order_Un: "ud_order g vis S \<Longrightarrow> ud_order g vis T \<Longrightarrow> ud_order g vis (S \<union> T)"
  unfolding ud_order_def by blast

lemma ud_unvisited_mono:
  "set vis \<subseteq> set vis1 \<Longrightarrow> card (fst ` set g - set vis1) \<le> card (fst ` set g - set vis)"
  by (intro card_mono) auto

lemma ud_for_spec:
  assumes inv: "ud_inv g"
    and H: "\<And>i A stack p. ud_pre g A stack p i \<Longrightarrow> card (fst ` set g - set A) \<le> f \<Longrightarrow>
        \<exists>b vis'. ud_has_Cycle_helper f g i A p = Some (Inr (b, vis')) \<and> ud_post g A p i b vis'"
    and pre: "ud_pre g A stack p v"
  shows "ud_adj g v = seen @ rest \<Longrightarrow> vis = A @ v # new \<Longrightarrow> distinct vis \<Longrightarrow>
     set vis \<subseteq> fst ` set g \<Longrightarrow>
     (\<forall>x\<in>set new. \<forall>y\<in>set (ud_adj g x). y \<in> set new \<or> (y = v \<and> x \<in> set seen)) \<Longrightarrow>
     (\<forall>i\<in>set seen. i \<in> set new \<or> p = Some i) \<Longrightarrow> ud_order g vis (set new) \<Longrightarrow>
     card (fst ` set g - set vis) \<le> f \<Longrightarrow>
     \<exists>b vis'. ud_has_Cycle_for f g v rest vis p = Some (Inr (b, vis')) \<and> ud_post g A p v b vis'"
proof (induction rest arbitrary: seen new vis)
  case Nil
  note vis = Nil.prems(2)
  from pre have vA: "v \<notin> set A" by (simp add: ud_pre_def)
  from Nil.prems(3) vis have vn: "v \<notin> set new" and An: "set A \<inter> set new = {}" by auto
  have closed: "ud_closed g (set (v # new)) v p"
    unfolding ud_closed_def
  proof (intro ballI)
    fix x y assume x: "x \<in> set (v # new)" and y: "y \<in> set (ud_adj g x)"
    show "y \<in> set (v # new) \<or> (x = v \<and> p = Some y)"
    proof (cases "x = v")
      case True
      with y Nil.prems(1) have "y \<in> set seen" by simp
      with Nil.prems(6) True show ?thesis by auto
    next
      case False
      with x have "x \<in> set new" by simp
      with Nil.prems(5) y show ?thesis by auto
    qed
  qed
  have ev: "ud_earlier vis v = set A" unfolding vis using vA by (rule ud_earlier_here)
  have par: "p = Some y" if "y \<in> set (ud_adj g v)" "y \<in> set A" for y
  proof -
    from that(1) Nil.prems(1) have "y \<in> set seen" by simp
    with Nil.prems(6) have "y \<in> set new \<or> p = Some y" by blast
    with that(2) An show ?thesis by blast
  qed
  have "ud_order g vis {v}"
    unfolding ud_order_def using par ev by auto
  with Nil.prems(7) have order: "ud_order g vis (set (v # new))"
    using ud_order_Un[of g vis "{v}" "set new"] by simp
  from closed order Nil.prems(3,4) vis have "ud_post g A p v False vis"
    by (simp add: ud_post_def)
  then show ?case by auto
next
  case (Cons i rest)
  note vis = Cons.prems(2)
  from pre have vK: "v \<in> fst ` set g" and vA: "v \<notin> set A" and dA: "distinct A"
    and dS: "distinct stack" and SA: "set stack \<subseteq> set A"
    and succ: "successively (\<lambda>a b. b \<in> set (ud_adj g a)) stack"
    and par: "case p of None \<Rightarrow> stack = []
                | Some q \<Rightarrow> stack \<noteq> [] \<and> last stack = q \<and> v \<in> set (ud_adj g q)"
    and black: "\<And>y x. y \<in> set A \<Longrightarrow> x \<in> set (ud_adj g y) \<Longrightarrow> x \<notin> set A \<Longrightarrow> y \<in> set stack"
    by (auto simp: ud_pre_def)
  from Cons.prems(1) have iN: "i \<in> set (ud_adj g v)" by simp
  from ud_dist[OF inv, of v] Cons.prems(1) have iseen: "i \<notin> set seen" by auto
  from Cons.prems(3) vis have vn: "v \<notin> set new" and An: "set A \<inter> set new = {}" by auto
  from inv have iv: "i \<noteq> v" using iN ud_irr by blast
  from SA vA have vS: "v \<notin> set stack" by blast
  have stack_ne: "stack \<noteq> [] \<Longrightarrow> p = Some (last stack) \<and> v \<in> set (ud_adj g (last stack))"
    using par by (cases p) auto
  have adj1: "ud_adj g v = (seen @ [i]) @ rest" using Cons.prems(1) by simp
  show ?case
  proof (cases "i \<in> set vis")
    case False
    have pre': "ud_pre g vis (stack @ [v]) (Some v) i"
      unfolding ud_pre_def
    proof (intro conjI ballI impI)
      show "i \<in> fst ` set g" by (rule ud_nbr_key(1)[OF inv iN])
      show "i \<notin> set vis" by (rule False)
      show "distinct vis" by (rule Cons.prems(3))
      show "set vis \<subseteq> fst ` set g" by (rule Cons.prems(4))
      show "distinct (stack @ [v])" using dS vS by simp
      show "set (stack @ [v]) \<subseteq> set vis" using SA vis by auto
      show "successively (\<lambda>a b. b \<in> set (ud_adj g a)) (stack @ [v])"
        unfolding successively_append_iff using succ stack_ne by auto
      show "case Some v of None \<Rightarrow> stack @ [v] = []
              | Some q \<Rightarrow> stack @ [v] \<noteq> [] \<and> last (stack @ [v]) = q \<and> i \<in> set (ud_adj g q)"
        using iN by simp
    next
      fix y x assume y: "y \<in> set vis" and x: "x \<in> set (ud_adj g y)" and xv: "x \<notin> set vis"
      from y vis consider "y \<in> set A" | "y = v" | "y \<in> set new" by auto
      then show "y \<in> set (stack @ [v])"
      proof cases
        case 1
        from xv vis have "x \<notin> set A" by simp
        from black[OF 1 x this] show ?thesis by simp
      next
        case 2
        then show ?thesis by simp
      next
        case 3
        with Cons.prems(5) x have "x \<in> set new \<or> x = v" by blast
        with xv vis show ?thesis by simp
      qed
    qed
    from H[OF pre' Cons.prems(8)] obtain b1 vis1 where
      h: "ud_has_Cycle_helper f g i vis (Some v) = Some (Inr (b1, vis1))"
      and post1: "ud_post g vis (Some v) i b1 vis1" by blast
    show ?thesis
    proof (cases b1)
      case True
      with post1 have "ud_post g A p v True vis1" by (simp add: ud_post_def)
      with h True False show ?thesis by auto
    next
      case nf: False
      with post1 obtain new1 where n1: "vis1 = vis @ i # new1" and d1: "distinct vis1"
        and k1: "set vis1 \<subseteq> fst ` set g" and c1: "ud_closed g (set (i # new1)) i (Some v)"
        and o1: "ud_order g vis1 (set (i # new1))"
        by (auto simp: ud_post_def)
      have v1: "vis1 = A @ v # (new @ i # new1)" using n1 vis by simp
      have p5: "\<forall>x\<in>set (new @ i # new1). \<forall>y\<in>set (ud_adj g x).
                  y \<in> set (new @ i # new1) \<or> (y = v \<and> x \<in> set (seen @ [i]))"
      proof (intro ballI)
        fix x y assume x: "x \<in> set (new @ i # new1)" and y: "y \<in> set (ud_adj g x)"
        show "y \<in> set (new @ i # new1) \<or> (y = v \<and> x \<in> set (seen @ [i]))"
        proof (cases "x \<in> set new")
          case True
          with Cons.prems(5) y show ?thesis by auto
        next
          case False
          with x have "x \<in> set (i # new1)" by auto
          with c1 y have "y \<in> set (i # new1) \<or> (x = i \<and> Some v = Some y)"
            unfolding ud_closed_def by blast
          then show ?thesis by auto
        qed
      qed
      have p6: "\<forall>j\<in>set (seen @ [i]). j \<in> set (new @ i # new1) \<or> p = Some j"
        using Cons.prems(6) by auto
      have "ud_order g vis1 (set new)"
        unfolding n1 by (rule ud_order_append[OF Cons.prems(7)]) (use vis in auto)
      with o1 have p7: "ud_order g vis1 (set (new @ i # new1))"
        using ud_order_Un[of g vis1 "set new" "set (i # new1)"] by simp
      have "card (fst ` set g - set vis1) \<le> card (fst ` set g - set vis)"
        by (rule ud_unvisited_mono) (auto simp: n1)
      with Cons.prems(8) have p8: "card (fst ` set g - set vis1) \<le> f" by simp
      from Cons.IH[OF adj1 v1 d1 k1 p5 p6 p7 p8] obtain b vis' where
        "ud_has_Cycle_for f g v rest vis1 p = Some (Inr (b, vis'))" "ud_post g A p v b vis'"
        by blast
      with h nf False show ?thesis by auto
    qed
  next
    case True
    show ?thesis
    proof (cases "p = Some i")
      case ip: True
      have p5: "\<forall>x\<in>set new. \<forall>y\<in>set (ud_adj g x). y \<in> set new \<or> (y = v \<and> x \<in> set (seen @ [i]))"
        using Cons.prems(5) by auto
      have p6: "\<forall>j\<in>set (seen @ [i]). j \<in> set new \<or> p = Some j"
        using Cons.prems(6) ip by auto
      from Cons.IH[OF adj1 vis Cons.prems(3,4) p5 p6 Cons.prems(7,8)] obtain b vis' where
        "ud_has_Cycle_for f g v rest vis p = Some (Inr (b, vis'))" "ud_post g A p v b vis'"
        by blast
      with True ip show ?thesis by auto
    next
      case np: False
      have "i \<notin> set new"
      proof
        assume inew: "i \<in> set new"
        from inv iN have "v \<in> set (ud_adj g i)" by (simp add: ud_sym)
        with Cons.prems(5) inew have "v \<in> set new \<or> i \<in> set seen" by blast
        with vn iseen show False by simp
      qed
      with True vis iv have iA: "i \<in> set A" by simp
      from inv iN have "v \<in> set (ud_adj g i)" by (simp add: ud_sym)
      from black[OF iA this vA] have iS: "i \<in> set stack" .
      then have "stack \<noteq> []" by auto
      from stack_ne[OF this] np have q: "last stack \<noteq> i" "v \<in> set (ud_adj g (last stack))"
        by auto
      from ud_cycle_from_stack[OF succ dS iS q(1) vS q(2) iN]
      have "ud_post g A p v True vis" by (simp add: ud_post_def)
      with True np show ?thesis by auto
    qed
  qed
qed

lemma ud_helper_spec:
  assumes inv: "ud_inv g"
  shows "ud_pre g A stack p v \<Longrightarrow> card (fst ` set g - set A) \<le> f \<Longrightarrow>
     \<exists>b vis'. ud_has_Cycle_helper f g v A p = Some (Inr (b, vis')) \<and> ud_post g A p v b vis'"
proof (induction f arbitrary: v A stack p)
  case 0
  from "0.prems"(1) have "v \<in> fst ` set g - set A" by (simp add: ud_pre_def)
  moreover have "finite (fst ` set g - set A)" by simp
  ultimately have "card (fst ` set g - set A) \<noteq> 0" by auto
  with "0.prems"(2) show ?case by simp
next
  case (Suc f)
  from Suc.prems(1) have vK: "v \<in> fst ` set g" and vA: "v \<notin> set A" and dA: "distinct A"
    and AK: "set A \<subseteq> fst ` set g" by (simp_all add: ud_pre_def)
  have "fst ` set g - set (A @ [v]) = (fst ` set g - set A) - {v}" by auto
  moreover have "card ((fst ` set g - set A) - {v}) = card (fst ` set g - set A) - 1"
    using vK vA by (intro card_Diff_singleton) simp
  ultimately have c: "card (fst ` set g - set (A @ [v])) \<le> f" using Suc.prems(2) by simp
  have "\<exists>b vis'. ud_has_Cycle_for f g v (ud_adj g v) (A @ [v]) p = Some (Inr (b, vis'))
          \<and> ud_post g A p v b vis'"
  proof (rule ud_for_spec[OF inv Suc.IH Suc.prems(1), where seen = "[]" and new = "[]"])
    show "ud_adj g v = [] @ ud_adj g v" by simp
    show "A @ [v] = A @ [v]" by simp
    show "distinct (A @ [v])" using dA vA by simp
    show "set (A @ [v]) \<subseteq> fst ` set g" using AK vK by simp
    show "\<forall>x\<in>set []. \<forall>y\<in>set (ud_adj g x). y \<in> set [] \<or> (y = v \<and> x \<in> set [])" by simp
    show "\<forall>i\<in>set []. i \<in> set [] \<or> p = Some i" by simp
    show "ud_order g (A @ [v]) (set [])" by (simp add: ud_order_def)
    show "card (fst ` set g - set (A @ [v])) \<le> f" by (rule c)
  qed
  then show ?case by (simp add: ud_lookup_key[OF vK])
qed

lemma ud_has_cycle_for_spec:
  assumes inv: "ud_inv g" and fuel: "card (fst ` set g) \<le> f"
  shows "ud_top g vis \<Longrightarrow> set ks \<subseteq> fst ` set g \<Longrightarrow>
     \<exists>b. ud_has_cycle_for f g ks vis = Some (Inr b) \<and> (b \<longrightarrow> (\<exists>cs. ud_cycle g cs))
        \<and> (\<not> b \<longrightarrow> (\<exists>vis'. ud_top g vis' \<and> set ks \<union> set vis \<subseteq> set vis'))"
proof (induction ks arbitrary: vis)
  case Nil
  then show ?case by auto
next
  case (Cons v ks)
  from Cons.prems(1) have dv: "distinct vis" and vK: "set vis \<subseteq> fst ` set g"
    and cl: "\<And>x. x \<in> set vis \<Longrightarrow> set (ud_adj g x) \<subseteq> set vis" and ord: "ud_order g vis (set vis)"
    by (auto simp: ud_top_def)
  from Cons.prems(2) have ks: "set ks \<subseteq> fst ` set g" and vk: "v \<in> fst ` set g" by simp_all
  show ?case
  proof (cases "v \<in> set vis")
    case True
    from Cons.IH[OF Cons.prems(1) ks] obtain b where
      "ud_has_cycle_for f g ks vis = Some (Inr b)" "b \<longrightarrow> (\<exists>cs. ud_cycle g cs)"
      "\<not> b \<longrightarrow> (\<exists>vis'. ud_top g vis' \<and> set ks \<union> set vis \<subseteq> set vis')" by blast
    with True show ?thesis by auto
  next
    case False
    have pre: "ud_pre g vis [] None v"
      unfolding ud_pre_def using vk False dv vK cl by auto
    have "card (fst ` set g - set vis) \<le> card (fst ` set g)" by (intro card_mono) auto
    with fuel have c: "card (fst ` set g - set vis) \<le> f" by simp
    from ud_helper_spec[OF inv pre c] obtain b1 vis1 where
      h: "ud_has_Cycle_helper f g v vis None = Some (Inr (b1, vis1))"
      and post: "ud_post g vis None v b1 vis1" by blast
    show ?thesis
    proof (cases b1)
      case True
      with post have "\<exists>cs. ud_cycle g cs" by (simp add: ud_post_def)
      with h True False show ?thesis by auto
    next
      case nf: False
      with post obtain new where n1: "vis1 = vis @ v # new" and d1: "distinct vis1"
        and k1: "set vis1 \<subseteq> fst ` set g" and c1: "ud_closed g (set (v # new)) v None"
        and o1: "ud_order g vis1 (set (v # new))"
        by (auto simp: ud_post_def)
      have "ud_order g vis1 (set vis)"
        unfolding n1 by (rule ud_order_append[OF ord]) simp
      with o1 have o: "ud_order g vis1 (set vis1)"
        using ud_order_Un[of g vis1 "set vis" "set (v # new)"] by (simp add: n1)
      have closed: "\<forall>x\<in>set vis1. set (ud_adj g x) \<subseteq> set vis1"
      proof (intro ballI subsetI)
        fix x y assume x: "x \<in> set vis1" and y: "y \<in> set (ud_adj g x)"
        show "y \<in> set vis1"
        proof (cases "x \<in> set vis")
          case True
          from cl[OF True] y show ?thesis by (auto simp: n1)
        next
          case False
          with x have "x \<in> set (v # new)" by (auto simp: n1)
          with c1 y have "y \<in> set (v # new)" unfolding ud_closed_def by blast
          then show ?thesis by (auto simp: n1)
        qed
      qed
      from d1 k1 closed o have top1: "ud_top g vis1" by (simp add: ud_top_def)
      from Cons.IH[OF top1 ks] obtain b where
        r: "ud_has_cycle_for f g ks vis1 = Some (Inr b)" "b \<longrightarrow> (\<exists>cs. ud_cycle g cs)"
        "\<not> b \<longrightarrow> (\<exists>vis'. ud_top g vis' \<and> set ks \<union> set vis1 \<subseteq> set vis')" by blast
      have "\<not> b \<longrightarrow> (\<exists>vis'. ud_top g vis' \<and> set (v # ks) \<union> set vis \<subseteq> set vis')"
        using r(3) by (auto simp: n1)
      with r(1,2) h nf False show ?thesis by auto
    qed
  qed
qed

lemma ud_has_cycle_correct:
  assumes inv: "ud_inv g" and fuel: "length g \<le> f"
  shows "ud_has_cycle f g = Some (Inr (\<exists>cs. ud_cycle g cs))"
proof -
  have "card (fst ` set g) \<le> card (set g)" by (rule card_image_le) simp
  also have "\<dots> \<le> length g" by (rule card_length)
  finally have c: "card (fst ` set g) \<le> f" using fuel by simp
  have top: "ud_top g []" by (simp add: ud_top_def ud_order_def)
  from ud_has_cycle_for_spec[OF inv c top, of "map fst g"] obtain b where
    r: "ud_has_cycle_for f g (map fst g) [] = Some (Inr b)" "b \<longrightarrow> (\<exists>cs. ud_cycle g cs)"
    "\<not> b \<longrightarrow> (\<exists>vis'. ud_top g vis' \<and> set (map fst g) \<union> set [] \<subseteq> set vis')" by auto
  have "b = (\<exists>cs. ud_cycle g cs)"
  proof (cases b)
    case True
    with r(2) show ?thesis by simp
  next
    case False
    with r(3) obtain vis' where "ud_top g vis'" "fst ` set g \<subseteq> set vis'" by auto
    from ud_top_acyclic[OF inv this] False show ?thesis by simp
  qed
  with r(1) show ?thesis by (simp add: ud_has_cycle_def)
qed

section \<open>Mutation of the directed graph\<close>

text \<open>
  C3. \<^verbatim>\<open>add_edge\<close> is meant to leave the graph unchanged, without an error, when an
  endpoint is not a vertex id in \<open>0..v_count-1\<close>. The guard only compares the
  endpoints with the length from above, so a negative endpoint passes it: on the
  two-vertex graph without edges, \<^verbatim>\<open>add_edge(-1, 0, 5)\<close> stores 5 at row 1, column 0
  (Python counts a negative index from the end), and \<^verbatim>\<open>add_edge(-3, 0, 5)\<close> raises
  IndexError.
\<close>

theorem d_add_edge_negative_index:
  "d_add_edge d_graph2 (- 1) 0 5 = Inr \<lparr>v_count = 2, adj_matrix = [[0, 0], [5, 0]]\<rparr>
   \<and> d_add_edge d_graph2 (- 3) 0 5 = Inl IndexError"
  by (simp add: d_add_edge_def d_store_def d_graph2_def py_get_def py_set_def py_valid_def
      py_norm_def)

text \<open>
  C4. Every state built from the empty graph by \<^verbatim>\<open>add_vertex\<close>, \<^verbatim>\<open>add_edge\<close> and
  \<^verbatim>\<open>remove_edge\<close> is meant to have a zero diagonal. With a negative endpoint the
  test \<^verbatim>\<open>src != dst\<close> does not see that both name the same vertex: after two
  \<^verbatim>\<open>add_vertex\<close> calls, \<^verbatim>\<open>add_edge(-1, 1, 5)\<close> stores 5 at row 1, column 1.
\<close>

theorem d_run_self_loop:
  "d_run d_init [AddVertex, AddVertex, AddEdge (- 1) 1 5]
     = Inr \<lparr>v_count = 2, adj_matrix = [[0, 0], [0, 5]]\<rparr>"
  by (simp add: d_init_def d_add_vertex_def d_add_edge_def d_store_def py_get_def py_set_def
      py_valid_def py_norm_def numeral_2_eq_2)

section \<open>Traversal from a start that is not a vertex\<close>

text \<open>
  C5. dfs and bfs are meant to return the empty list when \<open>v_start\<close> is not a vertex
  id. The guard is \<^verbatim>\<open>v_start > len(self.adj_matrix)\<close>: on the one-vertex graph,
  \<open>v_start = 1 = v_count\<close> passes it and the row lookup raises IndexError, and
  \<open>v_start = -1\<close> passes it and is visited as the last row.
\<close>

theorem d_dfs_bfs_out_of_range:
  "d_dfs d_graph1 1 None = Inl IndexError \<and> d_bfs d_graph1 1 None = Inl IndexError
   \<and> d_dfs d_graph1 (- 1) None = Inr [- 1] \<and> d_bfs d_graph1 (- 1) None = Inr [- 1]"
  by (simp add: d_dfs_def d_bfs_def d_graph1_def d_dfs_loop.simps d_bfs_loop.simps py_get_def
      py_valid_def py_norm_def)

section \<open>Mutation of the undirected graph\<close>

text \<open>
  C7. \<^verbatim>\<open>remove_edge\<close> is meant to remove an existing edge between two vertices
  whatever their labels are. Its condition starts with the truth value of the first
  label, so an edge whose first named endpoint is the empty string stays: after
  \<^verbatim>\<open>add_edge('', 'A')\<close>, \<^verbatim>\<open>remove_edge('', 'A')\<close> changes nothing, while
  \<^verbatim>\<open>remove_edge('A', '')\<close> removes the edge.
\<close>

theorem ud_remove_edge_empty_label:
  "ud_add_edge ud_init [] ''A'' = Inr [([], [''A'']), (''A'', [[]])]
   \<and> ud_remove_edge [([], [''A'']), (''A'', [[]])] [] ''A'' = Inr [([], [''A'']), (''A'', [[]])]
   \<and> ud_remove_edge [([], [''A'']), (''A'', [[]])] ''A'' [] = Inr [([], []), (''A'', [])]"
  by (simp add: ud_add_edge_def ud_init_def ud_add_vertex_def ud_in_get_def ud_append_def
      ud_remove_edge_def ud_remove_def)

text \<open>
  C9. On a graph of the class (square matrix), for distinct vertex ids \<open>src\<close> and
  \<open>dst\<close> in \<open>0..v_count-1\<close>, \<^verbatim>\<open>add_edge(src, dst, 0)\<close> is accepted and returns the
  same state as \<^verbatim>\<open>remove_edge(src, dst)\<close>: the matrix with entry \<open>M[src][dst]\<close>
  set to 0 and nothing else changed.
\<close>

theorem d_add_edge_zero_is_remove_edge:
  assumes "d_square g" and "0 \<le> src" and "src < int (v_count g)"
    and "0 \<le> dst" and "dst < int (v_count g)" and "src \<noteq> dst"
  shows "\<exists>g'. d_add_edge g src dst 0 = Inr g' \<and> d_remove_edge g src dst = Inr g'
           \<and> g' = g\<lparr>adj_matrix := (adj_matrix g)[nat src := (adj_matrix g ! nat src)[nat dst := 0]]\<rparr>
           \<and> adj_matrix g' ! nat src ! nat dst = 0"
proof -
  from assms have len: "length (adj_matrix g) = v_count g"
    and row: "length (adj_matrix g ! nat src) = v_count g"
    by (auto simp: d_square_def list_all_length)
  have a: "d_add_edge g src dst 0 = d_store g src dst 0"
    using assms len by (simp add: d_add_edge_def)
  have r: "d_remove_edge g src dst = d_store g src dst 0"
    using assms len by (simp add: d_remove_edge_def)
  show ?thesis using assms len row by (simp add: a r d_store_valid)
qed

theorem d_add_edge_zero_is_remove_edge_witness:
  "d_add_edge \<lparr>v_count = 2, adj_matrix = [[0, 7], [0, 0]]\<rparr> 0 1 0 = Inr d_graph2
   \<and> d_remove_edge \<lparr>v_count = 2, adj_matrix = [[0, 7], [0, 0]]\<rparr> 0 1 = Inr d_graph2"
  using d_add_edge_zero_is_remove_edge [of "\<lparr>v_count = 2, adj_matrix = [[0, 7], [0, 0]]\<rparr>" 0 1]
  by (simp add: d_square_def d_graph2_def)

text \<open>
  C6. Every sequence of \<^verbatim>\<open>add_vertex\<close>, \<^verbatim>\<open>add_edge\<close>, \<^verbatim>\<open>remove_edge\<close> and
  \<^verbatim>\<open>remove_vertex\<close> calls, with any labels, runs from the empty graph without an
  exception, and in the state it reaches adjacency is symmetric (\<open>u\<close> is in the list of
  \<open>v\<close> exactly when \<open>v\<close> is in the list of \<open>u\<close>), no vertex is in its own list and
  no list holds a label twice.
\<close>

theorem ud_reachable_invariants:
  "\<exists>g. ud_run ud_init cs = Inr g
      \<and> distinct (map fst g)
      \<and> (\<forall>u v. (u \<in> set (ud_adj g v)) = (v \<in> set (ud_adj g u)))
      \<and> (\<forall>v. v \<notin> set (ud_adj g v))
      \<and> (\<forall>v. distinct (ud_adj g v))"
  using ud_run_inv[OF ud_inv_init, of cs] unfolding ud_inv_def by blast

theorem ud_reachable_invariants_witness:
  "\<exists>g. ud_run ud_init [UAddEdge ''A'' ''B'', UAddEdge ''B'' ''C'', URemoveVertex ''B''] = Inr g
      \<and> distinct (map fst g)
      \<and> (\<forall>u v. (u \<in> set (ud_adj g v)) = (v \<in> set (ud_adj g u)))
      \<and> (\<forall>v. v \<notin> set (ud_adj g v))
      \<and> (\<forall>v. distinct (ud_adj g v))"
  using ud_reachable_invariants [of "[UAddEdge ''A'' ''B'', UAddEdge ''B'' ''C'', URemoveVertex ''B'']"]
  by simp

section \<open>Traversals\<close>

text \<open>
  C8. On a graph of either class and from a start that is a vertex, with \<open>v_end\<close>
  omitted, dfs and bfs return without an exception a list that holds exactly the vertices
  reachable from the start, each once. The depth-first lists begin with the start; every
  later vertex is the least unvisited neighbour of the vertex visited most recently that
  still has an unvisited neighbour, so a branch point's neighbours are explored in
  ascending order, also after a dead end; the returned list is the only list of the
  reachable vertices, each once, that begins with the start and is in this order. The
  breadth-first lists are the start followed by the ascending neighbour lists of their
  own vertices, each vertex kept where it occurs first. The order is numeric for the
  directed graph and lexicographic for the labels of the undirected one.
\<close>

theorem traversal_reachable_once_ascending:
  assumes "d_square g" and "s \<in> d_vertices g" and "ud_inv ug" and "us \<in> fst ` set ug"
  shows "(\<exists>vs. d_dfs g s None = Inr vs \<and> distinct vs \<and> set vs = {v. (s, v) \<in> (d_edge g)\<^sup>*}
             \<and> hd vs = s \<and> dfs_order (d_edge g) vs
             \<and> (\<forall>ws. distinct ws \<and> set ws = set vs \<and> hd ws = s \<and> dfs_order (d_edge g) ws
                   \<longrightarrow> ws = vs))
       \<and> (\<exists>vs. d_bfs g s None = Inr vs \<and> distinct vs \<and> set vs = {v. (s, v) \<in> (d_edge g)\<^sup>*}
             \<and> bfs_order (d_edge g) s vs)
       \<and> (\<exists>vs. ud_dfs ug us None = Inr vs \<and> distinct vs \<and> set vs = {v. (us, v) \<in> (ud_edge ug)\<^sup>*}
             \<and> hd vs = us \<and> dfs_order (ud_edge ug) vs
             \<and> (\<forall>ws. distinct ws \<and> set ws = set vs \<and> hd ws = us \<and> dfs_order (ud_edge ug) ws
                   \<longrightarrow> ws = vs))
       \<and> (\<exists>vs. ud_bfs ug us None = Inr vs \<and> distinct vs \<and> set vs = {v. (us, v) \<in> (ud_edge ug)\<^sup>*}
             \<and> bfs_order (ud_edge ug) us vs)"
  using d_dfs_correct[OF assms(1,2)] d_bfs_correct[OF assms(1,2)]
    ud_dfs_correct[OF assms(3,4)] ud_bfs_correct[OF assms(3,4)]
  by (intro conjI)

theorem traversal_reachable_once_ascending_witness:
  "d_square d_graph3 \<and> 0 \<in> d_vertices d_graph3 \<and> ud_inv ud_triangle
   \<and> ''A'' \<in> fst ` set ud_triangle
   \<and> (\<exists>vs. d_dfs d_graph3 0 None = Inr vs \<and> distinct vs
          \<and> set vs = {v. (0, v) \<in> (d_edge d_graph3)\<^sup>*}
          \<and> hd vs = 0 \<and> dfs_order (d_edge d_graph3) vs
          \<and> (\<forall>ws. distinct ws \<and> set ws = set vs \<and> hd ws = 0 \<and> dfs_order (d_edge d_graph3) ws
                \<longrightarrow> ws = vs))
   \<and> (\<exists>vs. d_bfs d_graph3 0 None = Inr vs \<and> distinct vs
          \<and> set vs = {v. (0, v) \<in> (d_edge d_graph3)\<^sup>*} \<and> bfs_order (d_edge d_graph3) 0 vs)
   \<and> (\<exists>vs. ud_dfs ud_triangle ''A'' None = Inr vs \<and> distinct vs
          \<and> set vs = {v. (''A'', v) \<in> (ud_edge ud_triangle)\<^sup>*}
          \<and> hd vs = ''A'' \<and> dfs_order (ud_edge ud_triangle) vs
          \<and> (\<forall>ws. distinct ws \<and> set ws = set vs \<and> hd ws = ''A''
                  \<and> dfs_order (ud_edge ud_triangle) ws \<longrightarrow> ws = vs))
   \<and> (\<exists>vs. ud_bfs ud_triangle ''A'' None = Inr vs \<and> distinct vs
          \<and> set vs = {v. (''A'', v) \<in> (ud_edge ud_triangle)\<^sup>*}
          \<and> bfs_order (ud_edge ud_triangle) ''A'' vs)"
proof -
  have h1: "d_square d_graph3" by (simp add: d_square_def d_graph3_def)
  have h2: "0 \<in> d_vertices d_graph3" by (simp add: d_vertices_def d_graph3_def)
  have h3: "ud_inv ud_triangle"
    using ud_run_inv[OF ud_inv_init, of "[UAddEdge ''A'' ''B'', UAddEdge ''B'' ''C'', UAddEdge ''C'' ''A'']"]
    unfolding ud_triangle_built by simp
  have h4: "''A'' \<in> fst ` set ud_triangle" by (simp add: ud_triangle_def)
  note t = traversal_reachable_once_ascending[OF h1 h2 h3 h4]
  from t have t1: "\<exists>vs. d_dfs d_graph3 0 None = Inr vs \<and> distinct vs
          \<and> set vs = {v. (0, v) \<in> (d_edge d_graph3)\<^sup>*}
          \<and> hd vs = 0 \<and> dfs_order (d_edge d_graph3) vs
          \<and> (\<forall>ws. distinct ws \<and> set ws = set vs \<and> hd ws = 0 \<and> dfs_order (d_edge d_graph3) ws
                \<longrightarrow> ws = vs)" by (rule conjunct1)
  from t have t2: "\<exists>vs. d_bfs d_graph3 0 None = Inr vs \<and> distinct vs
          \<and> set vs = {v. (0, v) \<in> (d_edge d_graph3)\<^sup>*} \<and> bfs_order (d_edge d_graph3) 0 vs"
    by (rule conjunct1[OF conjunct2])
  from t have t3: "\<exists>vs. ud_dfs ud_triangle ''A'' None = Inr vs \<and> distinct vs
          \<and> set vs = {v. (''A'', v) \<in> (ud_edge ud_triangle)\<^sup>*}
          \<and> hd vs = ''A'' \<and> dfs_order (ud_edge ud_triangle) vs
          \<and> (\<forall>ws. distinct ws \<and> set ws = set vs \<and> hd ws = ''A''
                  \<and> dfs_order (ud_edge ud_triangle) ws \<longrightarrow> ws = vs)"
    by (rule conjunct1[OF conjunct2[OF conjunct2]])
  from t have t4: "\<exists>vs. ud_bfs ud_triangle ''A'' None = Inr vs \<and> distinct vs
          \<and> set vs = {v. (''A'', v) \<in> (ud_edge ud_triangle)\<^sup>*}
          \<and> bfs_order (ud_edge ud_triangle) ''A'' vs"
    by (rule conjunct2[OF conjunct2[OF conjunct2]])
  from h1 h2 h3 h4 t1 t2 t3 t4 show ?thesis by (intro conjI)
qed

section \<open>Shortest distances\<close>

text \<open>
  C1. On a graph of the class (square matrix, no negative entry) and from a source that is
  a vertex id, \<^verbatim>\<open>dijkstra(src)\<close> returns, without an exception, a list of length
  \<open>v_count\<close> whose entry at \<open>src\<close> is 0, whose entry at every vertex that is not
  reachable from \<open>src\<close> is infinity, and whose entry at every reachable vertex is the
  weight of a directed path from \<open>src\<close> to it that no other such path undercuts. On the
  graph with the edges (0,1,10), (1,2,5), (0,2,20), \<^verbatim>\<open>dijkstra(0)\<close> returns [0, 10, 15].
\<close>

theorem dijkstra_shortest_distances:
  assumes "d_square g" and "d_nonneg g" and "src \<in> d_vertices g"
  shows "(\<exists>r. dijkstra g src = Some (Inr r) \<and> length r = v_count g \<and> r ! nat src = Fin 0
            \<and> (\<forall>i. i \<in> d_vertices g \<and> (src, i) \<notin> (d_edge g)\<^sup>* \<longrightarrow> r ! nat i = Inf)
            \<and> (\<forall>i. (src, i) \<in> (d_edge g)\<^sup>* \<longrightarrow>
                  (\<exists>m p. r ! nat i = Fin m \<and> d_path g src i p \<and> d_weight g p = m
                        \<and> (\<forall>q. d_path g src i q \<longrightarrow> m \<le> d_weight g q))))
       \<and> dijkstra d_graph3 0 = Some (Inr [Fin 0, Fin 10, Fin 15])"
proof -
  from dijkstra_result[OF assms] obtain r where r: "dijkstra g src = Some (Inr r)"
    "length r = v_count g" "dj_sound g src r" "dj_relaxed g src r []" by blast
  note v = dijkstra_values[OF assms r(2,3,4)]
  from r(1,2) v(1) v(2) v(3) show ?thesis using dijkstra_example by blast
qed

theorem dijkstra_shortest_distances_witness:
  "d_square d_graph3 \<and> d_nonneg d_graph3 \<and> 0 \<in> d_vertices d_graph3
   \<and> (\<exists>r. dijkstra d_graph3 0 = Some (Inr r) \<and> length r = v_count d_graph3
          \<and> r ! nat 0 = Fin 0
          \<and> (\<forall>i. i \<in> d_vertices d_graph3 \<and> (0, i) \<notin> (d_edge d_graph3)\<^sup>* \<longrightarrow> r ! nat i = Inf)
          \<and> (\<forall>i. (0, i) \<in> (d_edge d_graph3)\<^sup>* \<longrightarrow>
                (\<exists>m p. r ! nat i = Fin m \<and> d_path d_graph3 0 i p \<and> d_weight d_graph3 p = m
                      \<and> (\<forall>q. d_path d_graph3 0 i q \<longrightarrow> m \<le> d_weight d_graph3 q))))"
proof -
  have h1: "d_square d_graph3" by (simp add: d_square_def d_graph3_def)
  have h2: "d_nonneg d_graph3" by (simp add: d_nonneg_def d_graph3_def)
  have h3: "0 \<in> d_vertices d_graph3" by (simp add: d_vertices_def d_graph3_def)
  from dijkstra_shortest_distances[OF h1 h2 h3] h1 h2 h3 show ?thesis by blast
qed

section \<open>Termination of dijkstra\<close>

text \<open>
  C10. On a graph of the class whose nonzero weights are positive (no negative entry) and
  from a source that is a vertex id, the loop of \<^verbatim>\<open>dijkstra(src)\<close> ends: the model, in
  which a run that does not end is \<open>None\<close>, returns a list. The inner loop appends an
  entry for a vertex that is already in \<open>visited\<close> only when the new distance is strictly
  below the recorded one.
\<close>

theorem dijkstra_terminates:
  assumes "d_square g" and "d_nonneg g" and "src \<in> d_vertices g"
  shows "(\<exists>r. dijkstra g src = Some (Inr r) \<and> length r = v_count g)
       \<and> (\<forall>row vi di visited map' queue. 0 \<le> vi \<and> nat vi + length row \<le> length map' \<longrightarrow>
            (\<exists>new. dijkstra_edges row vi di visited map' queue = Inr (queue @ new)
                  \<and> (\<forall>e\<in>set new. fst e \<in> set visited \<longrightarrow> dist_less (snd e) (map' ! nat (fst e)))))"
proof (intro conjI allI impI)
  from dijkstra_result[OF assms] show "\<exists>r. dijkstra g src = Some (Inr r) \<and> length r = v_count g"
    by blast
next
  fix row :: "int list" and vi di :: int and visited :: "int list" and map' :: "dist list"
    and queue :: "(int \<times> int) list"
  assume a: "0 \<le> vi \<and> nat vi + length row \<le> length map'"
  then have "dijkstra_edges row vi di visited map' queue
               = Inr (queue @ dj_children row vi di visited map')"
    by (simp add: dijkstra_edges_eq)
  moreover have "dist_less (snd e) (map' ! nat (fst e))"
    if "e \<in> set (dj_children row vi di visited map')" "fst e \<in> set visited" for e
  proof -
    from that(1) have "(fst e, snd e) \<in> set (dj_children row vi di visited map')" by simp
    from dj_children_mem[OF this] that(2) show ?thesis by blast
  qed
  ultimately show "\<exists>new. dijkstra_edges row vi di visited map' queue = Inr (queue @ new)
      \<and> (\<forall>e\<in>set new. fst e \<in> set visited \<longrightarrow> dist_less (snd e) (map' ! nat (fst e)))"
    by blast
qed

theorem dijkstra_terminates_witness:
  "d_square d_graph_loop \<and> d_nonneg d_graph_loop \<and> 0 \<in> d_vertices d_graph_loop
   \<and> (\<exists>r. dijkstra d_graph_loop 0 = Some (Inr r) \<and> length r = v_count d_graph_loop)"
proof -
  have h1: "d_square d_graph_loop" by (simp add: d_square_def d_graph_loop_def)
  have h2: "d_nonneg d_graph_loop" by (simp add: d_nonneg_def d_graph_loop_def)
  have h3: "0 \<in> d_vertices d_graph_loop" by (simp add: d_vertices_def d_graph_loop_def)
  from dijkstra_terminates[OF h1 h2 h3] h1 h2 h3 show ?thesis by blast
qed

section \<open>Cycle detection\<close>

text \<open>
  C2. On a directed graph of the class (square matrix), \<^verbatim>\<open>has_cycle()\<close> returns True
  exactly when some vertex reaches itself along at least one edge, that is when the graph
  has a directed cycle. On an undirected graph that satisfies the invariants of the class,
  \<^verbatim>\<open>has_cycle()\<close> returns True exactly when the graph has a cycle: at least three
  distinct vertices, each adjacent to the next and the last to the first. Neither raises.
  The fuel bounds the depth of the recursion; one unit for each vertex is enough.
\<close>

theorem has_cycle_correct:
  assumes "d_square g" and "v_count g \<le> fuel" and "ud_inv ug" and "length ug \<le> ufuel"
  shows "d_has_cycle fuel g = Some (Inr (\<exists>w. (w, w) \<in> (d_edge g)\<^sup>+))
       \<and> ud_has_cycle ufuel ug = Some (Inr (\<exists>cs. ud_cycle ug cs))"
  using d_has_cycle_correct[OF assms(1,2)] ud_has_cycle_correct[OF assms(3,4)]
  by (simp add: d_cyclic_def)

lemma has_cycle_examples:
  "d_has_cycle 2 d_graph_loop = Some (Inr True)" "d_has_cycle 3 d_graph3 = Some (Inr False)"
  "ud_has_cycle 3 ud_triangle = Some (Inr True)"
  by (simp_all add: d_has_cycle_def ud_has_cycle_def d_graph_loop_def d_graph3_def ud_triangle_def
      numeral_2_eq_2 numeral_3_eq_3 py_get_def py_valid_def py_norm_def ud_lookup_def)

theorem has_cycle_correct_witness:
  "d_square d_graph_loop \<and> v_count d_graph_loop \<le> 2 \<and> ud_inv ud_triangle
   \<and> length ud_triangle \<le> 3
   \<and> d_has_cycle 2 d_graph_loop = Some (Inr (\<exists>w. (w, w) \<in> (d_edge d_graph_loop)\<^sup>+))
   \<and> ud_has_cycle 3 ud_triangle = Some (Inr (\<exists>cs. ud_cycle ud_triangle cs))
   \<and> d_has_cycle 2 d_graph_loop = Some (Inr True)
   \<and> ud_has_cycle 3 ud_triangle = Some (Inr True)"
proof -
  have h1: "d_square d_graph_loop" by (simp add: d_square_def d_graph_loop_def)
  have h2: "v_count d_graph_loop \<le> 2" by (simp add: d_graph_loop_def)
  have h3: "ud_inv ud_triangle"
    using ud_run_inv[OF ud_inv_init, of "[UAddEdge ''A'' ''B'', UAddEdge ''B'' ''C'', UAddEdge ''C'' ''A'']"]
    unfolding ud_triangle_built by simp
  have h4: "length ud_triangle \<le> 3" by (simp add: ud_triangle_def)
  from has_cycle_correct[OF h1 h2 h3 h4] h1 h2 h3 h4 has_cycle_examples(1,3)
  show ?thesis by (intro conjI) simp_all
qed

end
